theory Spec2Isabelle
  imports Complex_Main "HOL-Library.Word"
begin

section \<open>Strings\<close>

text \<open>
  A JavaScript string is a sequence of 16-bit code units. The regular expressions of
  \<^verbatim>\<open>cleanCode\<close> carry no \<^verbatim>\<open>u\<close> flag and \<^verbatim>\<open>trim\<close> looks at single code units, so
  the code unit is the character of this development.
\<close>

type_synonym code_unit = "16 word"
type_synonym jsstring = "code_unit list"

definition lit :: "string \<Rightarrow> jsstring" where
  "lit s = map (\<lambda>c. of_nat (of_char c)) s"

definition bt :: code_unit where
  "bt = 0x60"

definition nl :: code_unit where
  "nl = 0x0A"

definition dq :: code_unit where
  "dq = 0x22"

definition fence :: jsstring where
  "fence = [bt, bt, bt]"

text \<open>The class \<^verbatim>\<open>\w\<close> of a regular expression without flags: \<^verbatim>\<open>[A-Za-z0-9_]\<close>.\<close>

definition is_word :: "code_unit \<Rightarrow> bool" where
  "is_word c \<longleftrightarrow>
     (0x41 \<le> c \<and> c \<le> 0x5A) \<or> (0x61 \<le> c \<and> c \<le> 0x7A) \<or> (0x30 \<le> c \<and> c \<le> 0x39) \<or> c = 0x5F"

text \<open>
  What \<^verbatim>\<open>String.prototype.trim\<close> strips: the WhiteSpace and LineTerminator code points of
  ECMAScript, all of them single code units.
\<close>

definition is_ws :: "code_unit \<Rightarrow> bool" where
  "is_ws c \<longleftrightarrow>
     c = 0x09 \<or> c = 0x0A \<or> c = 0x0B \<or> c = 0x0C \<or> c = 0x0D \<or> c = 0x20 \<or> c = 0xA0 \<or>
     c = 0x1680 \<or> (0x2000 \<le> c \<and> c \<le> 0x200A) \<or> c = 0x2028 \<or> c = 0x2029 \<or>
     c = 0x202F \<or> c = 0x205F \<or> c = 0x3000 \<or> c = 0xFEFF"

definition trim :: "jsstring \<Rightarrow> jsstring" where
  "trim s = rev (dropWhile is_ws (rev (dropWhile is_ws s)))"

section \<open>The output sanitizer \<^verbatim>\<open>cleanCode\<close>\<close>

text \<open>
  \<^verbatim>\<open>str.replace(/```[\w]*\n/g, "").replace(/```/g, "").trim()\<close>

  A match of the first expression at the head of \<open>s\<close>: three backticks, the longest run
  of word characters, a newline. The run is followed by a character that is no word
  character, so giving characters back (the backtracking of the greedy star) can never
  make the newline match: the longest run decides. \<open>match_open\<close> returns what follows
  the match.
\<close>

definition match_open :: "jsstring \<Rightarrow> jsstring option" where
  "match_open s =
     (if take 3 s = fence then
        (case dropWhile is_word (drop 3 s) of
           [] \<Rightarrow> None
         | d # rest \<Rightarrow> if d = nl then Some rest else None)
      else None)"

text \<open>
  A global replace by the empty string scans from the left: where the expression matches,
  the match is dropped and the scan goes on behind it; elsewhere the character is kept.
\<close>

function strip_open :: "jsstring \<Rightarrow> jsstring" where
  "strip_open [] = []"
| "strip_open (c # cs) =
     (case match_open (c # cs) of
        Some rest \<Rightarrow> strip_open rest
      | None \<Rightarrow> c # strip_open cs)"
  by pat_completeness auto
termination
proof (relation "measure length")
  fix c :: code_unit and cs rest :: jsstring
  assume "match_open (c # cs) = Some rest"
  then obtain d where d: "dropWhile is_word (drop 3 (c # cs)) = d # rest"
    by (auto simp: match_open_def split: if_splits list.splits)
  have "length (dropWhile is_word (drop 3 (c # cs))) \<le> length (drop 3 (c # cs))"
    by (rule length_dropWhile_le)
  with d have "Suc (length rest) \<le> length (c # cs) - 3" by simp
  then show "(rest, c # cs) \<in> measure length" by simp
qed simp_all

fun strip_fence :: "jsstring \<Rightarrow> jsstring" where
  "strip_fence (a # b # c # cs) =
     (if a = bt \<and> b = bt \<and> c = bt then strip_fence cs else a # strip_fence (b # c # cs))"
| "strip_fence cs = cs"

definition cleanCode :: "jsstring \<Rightarrow> jsstring" where
  "cleanCode str = trim (strip_fence (strip_open str))"

text \<open>The text contains the three-backtick sequence somewhere.\<close>

fun has_fence :: "jsstring \<Rightarrow> bool" where
  "has_fence [] = False"
| "has_fence (c # cs) = (take 3 (c # cs) = fence \<or> has_fence cs)"

text \<open>A text is clean when it holds no fence and neither starts nor ends with white space.\<close>

definition clean :: "jsstring \<Rightarrow> bool" where
  "clean s \<longleftrightarrow> \<not> has_fence s \<and> (s = [] \<or> (\<not> is_ws (hd s) \<and> \<not> is_ws (last s)))"

text \<open>
  The sanitizer in the words of the specification, for comparison with \<open>cleanCode\<close>: an
  opening marker is removed only where it leads the text, a closing marker anywhere, then
  the text is trimmed.
\<close>

definition strip_leading_open :: "jsstring \<Rightarrow> jsstring" where
  "strip_leading_open s = (case match_open s of Some rest \<Rightarrow> rest | None \<Rightarrow> s)"

definition sanitize_leading_only :: "jsstring \<Rightarrow> jsstring" where
  "sanitize_leading_only s = trim (strip_fence (strip_leading_open s))"

section \<open>Values, errors and the world outside\<close>

text \<open>
  What \<^verbatim>\<open>response.json()\<close> resolves to, and what reading its properties yields. A
  number is kept as a rational: the code only asks whether it is zero.
\<close>

datatype jsval =
    JUndefined
  | JNull
  | JBool bool
  | JNum rat
  | JStr jsstring
  | JArr "jsval list"
  | JObj "(jsstring \<times> jsval) list"

text \<open>Everything the program can throw or be thrown at. Each is an \<^verbatim>\<open>Error\<close> instance.\<close>

datatype js_error =
    MissingApiKey
  | ApiError nat
  | FetchFailed jsstring
  | JsonFailed jsstring
  | TypeErrorProperty jsstring
  | TypeErrorNotFunction jsstring
  | ReadFailed jsstring
  | WriteFailed jsstring

record message =
  msg_role :: jsstring
  msg_content :: jsstring

record request =
  req_url :: jsstring
  req_authorization :: jsstring
  req_content_type :: jsstring
  req_referer :: jsstring
  req_model :: jsstring
  req_messages :: "message list"
  req_temperature :: rat

text \<open>A response: its status, and what \<^verbatim>\<open>json()\<close> does with its body.\<close>

record response =
  status :: nat
  body :: "js_error + jsval"

datatype fetch_outcome = Rejects js_error | Responds response

text \<open>
  The lines of the console, without their colours and wording: which line was printed,
  and with what.
\<close>

datatype console_line =
    SpecLoaded
  | ReviewLoaded
  | ArchitectBuilding
  | AuditorValidating
  | ReviewerPolishing
  | PipelineDone jsstring
  | UsageTitle
  | UsageLine
  | ErrorLine js_error

text \<open>
  The state the program runs in. \<open>api_key\<close> is the module variable \<^verbatim>\<open>API_KEY\<close> and
  \<open>env_model\<close> the environment variable behind \<^verbatim>\<open>MODEL\<close>. The remote service is the
  function \<open>net\<close>: given every request sent so far, the one being sent last, it tells
  how that \<^verbatim>\<open>fetch\<close> ends. \<open>typed_key\<close> is what the user answers to \<^verbatim>\<open>prompt\<close>, and
  \<open>write_protected\<close> holds the paths \<^verbatim>\<open>Deno.writeTextFile\<close> fails on.
\<close>

record world =
  api_key :: "jsstring option"
  env_model :: "jsstring option"
  typed_key :: "jsstring option"
  net :: "request list \<Rightarrow> fetch_outcome"
  fetch_log :: "request list"
  sleep_log :: "nat list"
  files :: "jsstring \<rightharpoonup> jsstring"
  write_protected :: "jsstring set"
  console :: "console_line list"

type_synonym 'a io = "world \<Rightarrow> (js_error + 'a) \<times> world"

text \<open>Sequencing of two steps: a thrown error skips the second.\<close>

definition bind :: "(js_error + 'a) \<times> world \<Rightarrow> ('a \<Rightarrow> 'b io) \<Rightarrow> (js_error + 'b) \<times> world" where
  "bind r f = (case r of (Inl e, w) \<Rightarrow> (Inl e, w) | (Inr a, w) \<Rightarrow> f a w)"

definition fetch :: "request \<Rightarrow> world \<Rightarrow> fetch_outcome \<times> world" where
  "fetch r w = (net w (fetch_log w @ [r]), w\<lparr>fetch_log := fetch_log w @ [r]\<rparr>)"

definition sleep :: "nat \<Rightarrow> world \<Rightarrow> world" where
  "sleep ms w = w\<lparr>sleep_log := sleep_log w @ [ms]\<rparr>"

definition console_log :: "console_line \<Rightarrow> world \<Rightarrow> world" where
  "console_log l w = w\<lparr>console := console w @ [l]\<rparr>"

definition readTextFile :: "jsstring \<Rightarrow> jsstring io" where
  "readTextFile path w =
     (case files w path of None \<Rightarrow> (Inl (ReadFailed path), w) | Some text \<Rightarrow> (Inr text, w))"

definition writeTextFile :: "jsstring \<Rightarrow> jsstring \<Rightarrow> unit io" where
  "writeTextFile path text w =
     (if path \<in> write_protected w then (Inl (WriteFailed path), w)
      else (Inr (), w\<lparr>files := (files w)(path \<mapsto> text)\<rparr>))"

text \<open>A string option that JavaScript takes for false: \<^verbatim>\<open>undefined\<close> or the empty string.\<close>

definition absent :: "jsstring option \<Rightarrow> bool" where
  "absent s \<longleftrightarrow> (case s of None \<Rightarrow> True | Some t \<Rightarrow> t = [])"

definition MODEL :: "world \<Rightarrow> jsstring" where
  "MODEL w =
     (case env_model w of
        None \<Rightarrow> lit ''google/gemini-2.0-flash-exp:free''
      | Some m \<Rightarrow> if m = [] then lit ''google/gemini-2.0-flash-exp:free'' else m)"

section \<open>Reading the response\<close>

fun truthy :: "jsval \<Rightarrow> bool" where
  "truthy JUndefined = False"
| "truthy JNull = False"
| "truthy (JBool b) = b"
| "truthy (JNum n) = (n \<noteq> 0)"
| "truthy (JStr s) = (s \<noteq> [])"
| "truthy (JArr xs) = True"
| "truthy (JObj kvs) = True"

text \<open>
  \<^verbatim>\<open>v.k\<close> for the names the code reads (\<^verbatim>\<open>choices\<close>, \<^verbatim>\<open>message\<close>, \<^verbatim>\<open>content\<close>), none of
  which a string, a number, a boolean, an array or \<^verbatim>\<open>Object.prototype\<close> has. Of a key
  that a JSON object repeats, the last one counts.
\<close>

fun get_member :: "jsval \<Rightarrow> jsstring \<Rightarrow> js_error + jsval" where
  "get_member JUndefined k = Inl (TypeErrorProperty k)"
| "get_member JNull k = Inl (TypeErrorProperty k)"
| "get_member (JObj kvs) k = Inr (case map_of (rev kvs) k of None \<Rightarrow> JUndefined | Some v \<Rightarrow> v)"
| "get_member v k = Inr JUndefined"

text \<open>\<^verbatim>\<open>v[0]\<close>\<close>

fun get_index0 :: "jsval \<Rightarrow> js_error + jsval" where
  "get_index0 JUndefined = Inl (TypeErrorProperty (lit ''0''))"
| "get_index0 JNull = Inl (TypeErrorProperty (lit ''0''))"
| "get_index0 (JArr xs) = Inr (case xs of [] \<Rightarrow> JUndefined | x # rest \<Rightarrow> x)"
| "get_index0 (JStr s) = Inr (case s of [] \<Rightarrow> JUndefined | c # rest \<Rightarrow> JStr [c])"
| "get_index0 (JObj kvs) =
     Inr (case map_of (rev kvs) (lit ''0'') of None \<Rightarrow> JUndefined | Some v \<Rightarrow> v)"
| "get_index0 v = Inr JUndefined"

text \<open>\<^verbatim>\<open>v?.k\<close>\<close>

definition opt_member :: "jsval \<Rightarrow> jsstring \<Rightarrow> jsval" where
  "opt_member v k = (case get_member v k of Inl e \<Rightarrow> JUndefined | Inr x \<Rightarrow> x)"

text \<open>\<^verbatim>\<open>data.choices[0]?.message?.content || ""\<close>\<close>

definition extract_content :: "jsval \<Rightarrow> js_error + jsval" where
  "extract_content data =
     (case get_member data (lit ''choices'') of
        Inl e \<Rightarrow> Inl e
      | Inr choices \<Rightarrow>
          (case get_index0 choices of
             Inl e \<Rightarrow> Inl e
           | Inr first \<Rightarrow>
               (let c = opt_member (opt_member first (lit ''message'')) (lit ''content'')
                in Inr (if truthy c then c else JStr []))))"

section \<open>The client \<^verbatim>\<open>queryOpenRouter\<close>\<close>

definition ok :: "response \<Rightarrow> bool" where
  "ok r \<longleftrightarrow> 200 \<le> status r \<and> status r \<le> 299"

text \<open>How the body of the \<^verbatim>\<open>try\<close> block ends, once \<^verbatim>\<open>fetch\<close> has.\<close>

datatype attempt_outcome = RateLimited | Thrown js_error | Returned jsval

definition try_attempt :: "fetch_outcome \<Rightarrow> attempt_outcome" where
  "try_attempt fo =
     (case fo of
        Rejects e \<Rightarrow> Thrown e
      | Responds r \<Rightarrow>
          if status r = 429 then RateLimited
          else if \<not> ok r then Thrown (ApiError (status r))
          else (case body r of
                  Inl e \<Rightarrow> Thrown e
                | Inr data \<Rightarrow>
                    (case extract_content data of Inl e \<Rightarrow> Thrown e | Inr v \<Rightarrow> Returned v)))"

definition mk_request :: "world \<Rightarrow> message list \<Rightarrow> rat \<Rightarrow> request" where
  "mk_request w messages temperature =
     \<lparr>req_url = lit ''https://openrouter.ai/api/v1/chat/completions'',
      req_authorization =
        lit ''Bearer '' @ (case api_key w of None \<Rightarrow> lit ''undefined'' | Some k \<Rightarrow> k),
      req_content_type = lit ''application/json'',
      req_referer = lit ''https://xpecgen.local'',
      req_model = MODEL w,
      req_messages = messages,
      req_temperature = temperature\<rparr>"

text \<open>The \<^verbatim>\<open>for\<close> loop over \<open>attempt\<close>, entered with \<open>attempt = 1\<close>.\<close>

function attempt_loop :: "message list \<Rightarrow> rat \<Rightarrow> nat \<Rightarrow> nat \<Rightarrow> jsval io" where
  "attempt_loop messages temperature retries attempt w =
     (if attempt \<le> retries then
        (case fetch (mk_request w messages temperature) w of
           (fo, w1) \<Rightarrow>
             (case try_attempt fo of
                RateLimited \<Rightarrow>
                  attempt_loop messages temperature retries (attempt + 1)
                    (sleep (2000 * attempt) w1)
              | Returned v \<Rightarrow> (Inr v, w1)
              | Thrown e \<Rightarrow>
                  if attempt = retries then (Inl e, w1)
                  else attempt_loop messages temperature retries (attempt + 1) (sleep 1000 w1)))
      else (Inr (JStr []), w))"
  by pat_completeness auto
termination
  by (relation "measure (\<lambda>(messages, temperature, retries, attempt, w). Suc retries - attempt)")
    auto

definition queryOpenRouter :: "message list \<Rightarrow> rat \<Rightarrow> nat \<Rightarrow> jsval io" where
  "queryOpenRouter messages temperature retries w =
     (if absent (api_key w) then (Inl MissingApiKey, w)
      else attempt_loop messages temperature retries 1 w)"

section \<open>The agents\<close>

definition user_message :: "jsstring \<Rightarrow> message" where
  "user_message text = \<lparr>msg_role = lit ''user'', msg_content = text\<rparr>"

definition architect_prompt :: "jsstring \<Rightarrow> jsstring \<Rightarrow> jsstring" where
  "architect_prompt prompt spec =
     [nl] @ lit ''  CONTEXT / SPECIFICATION:'' @ [nl] @
     lit ''  '' @ spec @ [nl] @
     lit ''  TASK: Implement the user request: '' @ [dq] @ prompt @ [dq] @ lit ''.'' @ [nl] @
     lit ''  OUTPUT: Return ONLY the code/text content.'' @ [nl] @
     lit ''  ''"

definition auditor_prompt :: "jsstring \<Rightarrow> jsstring \<Rightarrow> jsstring" where
  "auditor_prompt code spec =
     [nl] @ lit ''  SPECIFICATION:'' @ [nl] @
     lit ''  '' @ spec @ [nl] @
     lit ''  TASK: Fix any violations of the SPEC in the provided CODE.'' @ [nl] @
     lit ''  OUTPUT: Return the FIXED code ONLY.'' @ [nl] @
     lit ''  CODE:'' @ [nl] @
     lit ''  '' @ code @ [nl] @
     lit ''  ''"

definition reviewer_prompt :: "jsstring \<Rightarrow> jsstring \<Rightarrow> jsstring" where
  "reviewer_prompt code reviewRules =
     [nl] @ lit ''  CODE REVIEW RULES (STYLE GUIDE):'' @ [nl] @
     lit ''  '' @ reviewRules @ [nl] @
     [nl] @
     lit ''  ROLE: You are a Senior Code Reviewer.'' @ [nl] @
     lit ''  TASK: Refactor the provided CODE to strictly follow the REVIEW RULES.'' @ [nl] @
     lit ''  '' @ [nl] @
     lit ''  ACTIONS:'' @ [nl] @
     lit ''  - Fix naming conventions.'' @ [nl] @
     lit ''  - Optimize imports.'' @ [nl] @
     lit ''  - Improve comments/docs if requested.'' @ [nl] @
     lit ''  - Do NOT change the business logic, only the style/structure.'' @ [nl] @
     [nl] @
     lit ''  OUTPUT: Return the REFACTORED code ONLY.'' @ [nl] @
     lit ''  CODE:'' @ [nl] @
     lit ''  '' @ code @ [nl] @
     lit ''  ''"

definition architectAgent :: "jsstring \<Rightarrow> jsstring \<Rightarrow> jsval io" where
  "architectAgent prompt spec w =
     queryOpenRouter [user_message (architect_prompt prompt spec)] (7 / 10) 5
       (console_log ArchitectBuilding w)"

definition auditorAgent :: "jsstring \<Rightarrow> jsstring \<Rightarrow> jsval io" where
  "auditorAgent code spec w =
     queryOpenRouter [user_message (auditor_prompt code spec)] (2 / 10) 5
       (console_log AuditorValidating w)"

definition reviewerAgent :: "jsstring \<Rightarrow> jsstring \<Rightarrow> jsval io" where
  "reviewerAgent code reviewRules w =
     queryOpenRouter [user_message (reviewer_prompt code reviewRules)] (2 / 10) 5
       (console_log ReviewerPolishing w)"

section \<open>The pipeline \<^verbatim>\<open>main\<close>\<close>

text \<open>
  \<^verbatim>\<open>cleanCode\<close> applied to what an agent returned. The client returns whatever the
  response holds as content; on anything but a string, \<^verbatim>\<open>str.replace\<close> is no function
  and the call throws.
\<close>

fun cleanCode_val :: "jsval \<Rightarrow> js_error + jsstring" where
  "cleanCode_val (JStr s) = Inr (cleanCode s)"
| "cleanCode_val JUndefined = Inl (TypeErrorProperty (lit ''replace''))"
| "cleanCode_val JNull = Inl (TypeErrorProperty (lit ''replace''))"
| "cleanCode_val v = Inl (TypeErrorNotFunction (lit ''replace''))"

text \<open>The parsed command line: the joined positional arguments and the three flags.\<close>

record args =
  arg_prompt :: jsstring
  arg_spec :: "jsstring option"
  arg_review :: "jsstring option"
  arg_out :: "jsstring option"

text \<open>Step 1 of the \<^verbatim>\<open>try\<close> block: the specification and, with a review path, the rules.\<close>

definition load_contexts :: "jsstring \<Rightarrow> jsstring option \<Rightarrow> (jsstring \<times> jsstring) io" where
  "load_contexts specPath reviewPath w =
     bind (readTextFile specPath w) (\<lambda>specContent w.
       if absent reviewPath then (Inr (specContent, []), console_log SpecLoaded w)
       else bind (readTextFile (the reviewPath) (console_log SpecLoaded w)) (\<lambda>reviewContent w.
         (Inr (specContent, reviewContent), console_log ReviewLoaded w)))"

text \<open>Steps 2 to 5: the three stages, each followed by \<^verbatim>\<open>cleanCode\<close>, and the output.\<close>

definition generate :: "jsstring \<Rightarrow> jsstring \<Rightarrow> jsstring \<Rightarrow> jsstring \<Rightarrow> unit io" where
  "generate userPrompt specContent reviewContent outPath w =
     bind (architectAgent userPrompt specContent w) (\<lambda>code w.
     bind (cleanCode_val code, w) (\<lambda>code w.
     bind (auditorAgent code specContent w) (\<lambda>code w.
     bind (cleanCode_val code, w) (\<lambda>code w.
     bind (if reviewContent \<noteq> [] then
             bind (reviewerAgent code reviewContent w) (\<lambda>code w. (cleanCode_val code, w))
           else (Inr code, w)) (\<lambda>code w.
     bind (writeTextFile outPath code w) (\<lambda>u w.
     (Inr (), console_log (PipelineDone outPath) w)))))))"

definition main_try :: "jsstring \<Rightarrow> jsstring \<Rightarrow> jsstring option \<Rightarrow> jsstring \<Rightarrow> unit io" where
  "main_try userPrompt specPath reviewPath outPath w =
     bind (load_contexts specPath reviewPath w) (\<lambda>(specContent, reviewContent) w.
       generate userPrompt specContent reviewContent outPath w)"

text \<open>
  How \<^verbatim>\<open>main\<close> ends: in \<^verbatim>\<open>Deno.exit\<close> with a code, or by returning, after which the
  process, with nothing left to run, exits with code 0.
\<close>

datatype completion = Exit nat | Resolved

fun exit_code :: "completion \<Rightarrow> nat" where
  "exit_code (Exit n) = n"
| "exit_code Resolved = 0"

definition out_path :: "args \<Rightarrow> jsstring" where
  "out_path a = (if absent (arg_out a) then lit ''output.ts'' else the (arg_out a))"

definition main :: "args \<Rightarrow> world \<Rightarrow> completion \<times> world" where
  "main a w0 =
     (let w = (if absent (api_key w0)
               then w0\<lparr>api_key := Some (case typed_key w0 of None \<Rightarrow> [] | Some k \<Rightarrow> k)\<rparr>
               else w0)
      in if absent (api_key w) then (Exit 1, w)
         else if arg_prompt a = [] \<or> absent (arg_spec a)
           then (Exit 0, console_log UsageLine (console_log UsageTitle w))
         else (case main_try (arg_prompt a) (the (arg_spec a)) (arg_review a) (out_path a) w of
                 (Inr u, w') \<Rightarrow> (Resolved, w')
               | (Inl err, w') \<Rightarrow> (Resolved, console_log (ErrorLine err) w')))"

section \<open>A stage that throws\<close>

text \<open>
  An exception raised during a pipeline stage. A stage is the call of an agent and of
  \<^verbatim>\<open>cleanCode\<close> on what the agent returned. With the contexts loaded in \<open>wl\<close>, one of
  the three stages throws \<open>e\<close> and leaves the world \<open>wk\<close>, the stages before it having
  returned their text.
\<close>

inductive stage_throws ::
  "jsstring \<Rightarrow> jsstring \<Rightarrow> jsstring \<Rightarrow> world \<Rightarrow> js_error \<Rightarrow> world \<Rightarrow> bool"
  for userPrompt specContent reviewContent wl
where
  architect:
    "architectAgent userPrompt specContent wl = (Inl e, wk) \<Longrightarrow>
     stage_throws userPrompt specContent reviewContent wl e wk"
| architect_clean:
    "architectAgent userPrompt specContent wl = (Inr v1, wk) \<Longrightarrow>
     cleanCode_val v1 = Inl e \<Longrightarrow>
     stage_throws userPrompt specContent reviewContent wl e wk"
| auditor:
    "architectAgent userPrompt specContent wl = (Inr v1, w1) \<Longrightarrow>
     cleanCode_val v1 = Inr c1 \<Longrightarrow>
     auditorAgent c1 specContent w1 = (Inl e, wk) \<Longrightarrow>
     stage_throws userPrompt specContent reviewContent wl e wk"
| auditor_clean:
    "architectAgent userPrompt specContent wl = (Inr v1, w1) \<Longrightarrow>
     cleanCode_val v1 = Inr c1 \<Longrightarrow>
     auditorAgent c1 specContent w1 = (Inr v2, wk) \<Longrightarrow>
     cleanCode_val v2 = Inl e \<Longrightarrow>
     stage_throws userPrompt specContent reviewContent wl e wk"
| reviewer:
    "reviewContent \<noteq> [] \<Longrightarrow>
     architectAgent userPrompt specContent wl = (Inr v1, w1) \<Longrightarrow>
     cleanCode_val v1 = Inr c1 \<Longrightarrow>
     auditorAgent c1 specContent w1 = (Inr v2, w2) \<Longrightarrow>
     cleanCode_val v2 = Inr c2 \<Longrightarrow>
     reviewerAgent c2 reviewContent w2 = (Inl e, wk) \<Longrightarrow>
     stage_throws userPrompt specContent reviewContent wl e wk"
| reviewer_clean:
    "reviewContent \<noteq> [] \<Longrightarrow>
     architectAgent userPrompt specContent wl = (Inr v1, w1) \<Longrightarrow>
     cleanCode_val v1 = Inr c1 \<Longrightarrow>
     auditorAgent c1 specContent w1 = (Inr v2, w2) \<Longrightarrow>
     cleanCode_val v2 = Inr c2 \<Longrightarrow>
     reviewerAgent c2 reviewContent w2 = (Inr v3, wk) \<Longrightarrow>
     cleanCode_val v3 = Inl e \<Longrightarrow>
     stage_throws userPrompt specContent reviewContent wl e wk"

section \<open>Classes of responses\<close>

text \<open>
  The response classes the retry policy is described by. A failure that is no rate limit:
  \<^verbatim>\<open>fetch\<close> rejects, or the status is neither 429 nor a success, or the status is a
  success and \<^verbatim>\<open>json()\<close> rejects. \<open>fails_with fo e\<close> names the error too.
\<close>

definition rate_limited :: "fetch_outcome \<Rightarrow> bool" where
  "rate_limited fo \<longleftrightarrow> (case fo of Rejects x \<Rightarrow> False | Responds r \<Rightarrow> status r = 429)"

definition fails_with :: "fetch_outcome \<Rightarrow> js_error \<Rightarrow> bool" where
  "fails_with fo e \<longleftrightarrow>
     (case fo of
        Rejects x \<Rightarrow> e = x
      | Responds r \<Rightarrow>
          status r \<noteq> 429 \<and> (if ok r then body r = Inl e else e = ApiError (status r)))"

section \<open>Concrete runs\<close>

text \<open>A response with the given content, a 429, a 500, and a success without \<^verbatim>\<open>choices\<close>.\<close>

definition reply :: "jsstring \<Rightarrow> response" where
  "reply c =
     \<lparr>status = 200,
      body = Inr (JObj [(lit ''choices'',
               JArr [JObj [(lit ''message'', JObj [(lit ''content'', JStr c)])]])])\<rparr>"

definition too_many :: response where
  "too_many = \<lparr>status = 429, body = Inl (JsonFailed [])\<rparr>"

definition server_error :: response where
  "server_error = \<lparr>status = 500, body = Inl (JsonFailed [])\<rparr>"

definition no_choices :: response where
  "no_choices = \<lparr>status = 200, body = Inr (JObj [])\<rparr>"

text \<open>
  A world with a key, a specification file, a rules file and nothing sent yet; and
  services that answer every request alike, or with a 429 twice before they answer.
\<close>

definition demo_files :: "jsstring \<rightharpoonup> jsstring" where
  "demo_files =
     [lit ''spec.md'' \<mapsto> lit ''must be named greet'',
      lit ''rules.md'' \<mapsto> lit ''use arrow functions'']"

definition demo_world :: "(request list \<Rightarrow> fetch_outcome) \<Rightarrow> world" where
  "demo_world n =
     \<lparr>api_key = Some (lit ''sk-test''), env_model = None, typed_key = None, net = n,
      fetch_log = [], sleep_log = [], files = demo_files,
      write_protected = {}, console = []\<rparr>"

definition always :: "response \<Rightarrow> request list \<Rightarrow> fetch_outcome" where
  "always r sent = Responds r"

definition third_time_lucky :: "request list \<Rightarrow> fetch_outcome" where
  "third_time_lucky sent = (if length sent < 3 then Responds too_many else Responds (reply (lit ''ok'')))"

definition hello :: "message list" where
  "hello = [user_message (lit ''hello'')]"

text \<open>
  What a model answers, fenced and not, and a service whose third answer differs from
  its first two.
\<close>

definition fenced_greet :: jsstring where
  "fenced_greet = lit ''```ts\<newline>function greet() {}\<newline>```''"

definition arrow_greet :: jsstring where
  "arrow_greet = lit ''const greet = () => {};''"

definition staged :: "request list \<Rightarrow> fetch_outcome" where
  "staged sent =
     (if length sent < 3 then Responds (reply fenced_greet) else Responds (reply arrow_greet))"

text \<open>The command line of a run without review rules, and of one with them.\<close>

definition demo_args :: args where
  "demo_args =
     \<lparr>arg_prompt = lit ''write a hello world function'', arg_spec = Some (lit ''spec.md''),
      arg_review = None, arg_out = None\<rparr>"

definition review_args :: args where
  "review_args = demo_args\<lparr>arg_review := Some (lit ''rules.md'')\<rparr>"

text \<open>An opening marker in the middle of a line.\<close>

definition inner_marker :: jsstring where
  "inner_marker = lit ''a```ts\<newline>b''"

section \<open>Properties of the sanitizer\<close>

lemma bt_facts [simp]: "\<not> is_word bt" "\<not> is_ws bt" "bt \<noteq> nl" "nl \<noteq> bt" "\<not> is_word nl" "is_ws nl"
  by (simp_all add: is_word_def is_ws_def bt_def nl_def)

lemma has_fence_iff: "has_fence s \<longleftrightarrow> (\<exists>pre post. s = pre @ fence @ post)"
proof (induction s)
  case Nil
  show ?case by (simp add: fence_def)
next
  case (Cons c cs)
  show ?case
  proof
    assume "has_fence (c # cs)"
    then consider "take 3 (c # cs) = fence" | "has_fence cs" by auto
    then show "\<exists>pre post. c # cs = pre @ fence @ post"
    proof cases
      case 1
      then have "c # cs = [] @ fence @ drop 3 (c # cs)"
        by (metis append_Nil append_take_drop_id)
      then show ?thesis by blast
    next
      case 2
      with Cons.IH obtain pre post where "cs = pre @ fence @ post" by blast
      then have "c # cs = (c # pre) @ fence @ post" by simp
      then show ?thesis by blast
    qed
  next
    assume "\<exists>pre post. c # cs = pre @ fence @ post"
    then obtain pre post where e: "c # cs = pre @ fence @ post" by blast
    show "has_fence (c # cs)"
    proof (cases pre)
      case Nil
      with e have "take 3 (c # cs) = fence" by (simp add: fence_def)
      then show ?thesis by simp
    next
      case (Cons p ps)
      with e have "cs = ps @ fence @ post" by simp
      with Cons.IH have "has_fence cs" by blast
      then show ?thesis by simp
    qed
  qed
qed

lemma take3_fence: "take 3 s = fence \<longleftrightarrow> (\<exists>cs. s = bt # bt # bt # cs)"
proof (cases s)
  case Nil
  then show ?thesis by (simp add: fence_def)
next
  case (Cons a as)
  show ?thesis
  proof (cases as)
    case Nil
    with Cons show ?thesis by (simp add: fence_def)
  next
    case (Cons b bs)
    with \<open>s = a # as\<close> show ?thesis by (cases bs) (auto simp: fence_def)
  qed
qed

lemma strip_fence_lead:
  "length (takeWhile (\<lambda>c. c = bt) (strip_fence s)) \<le> length (takeWhile (\<lambda>c. c = bt) s)"
  by (induction s rule: strip_fence.induct) auto

lemma no_fence_strip_fence: "\<not> has_fence (strip_fence s)"
proof (induction s rule: strip_fence.induct)
  case (1 a b c cs)
  show ?case
  proof (cases "a = bt \<and> b = bt \<and> c = bt")
    case True
    with 1 show ?thesis by simp
  next
    case False
    with 1 have ih: "\<not> has_fence (strip_fence (b # c # cs))" by simp
    have "take 3 (a # strip_fence (b # c # cs)) \<noteq> fence"
    proof
      assume "take 3 (a # strip_fence (b # c # cs)) = fence"
      then obtain r where r: "a # strip_fence (b # c # cs) = bt # bt # bt # r"
        unfolding take3_fence by blast
      then have "2 \<le> length (takeWhile (\<lambda>c. c = bt) (strip_fence (b # c # cs)))" by simp
      with strip_fence_lead [of "b # c # cs"]
      have "2 \<le> length (takeWhile (\<lambda>c. c = bt) (b # c # cs))" by linarith
      with r False show False by (auto split: if_splits)
    qed
    moreover from False have "strip_fence (a # b # c # cs) = a # strip_fence (b # c # cs)"
      by auto
    ultimately show ?thesis using ih by (simp del: strip_fence.simps take_Suc_Cons)
  qed
qed (simp_all add: fence_def)

lemma trim_decomp: "\<exists>pre post. s = pre @ trim s @ post"
proof -
  let ?t = "dropWhile is_ws s"
  have "?t = trim s @ rev (takeWhile is_ws (rev ?t))"
    by (metis rev_append rev_rev_ident takeWhile_dropWhile_id trim_def)
  moreover have "s = takeWhile is_ws s @ ?t" by simp
  ultimately have "s = takeWhile is_ws s @ trim s @ rev (takeWhile is_ws (rev ?t))" by simp
  then show ?thesis by blast
qed

lemma has_fence_trim: "has_fence (trim s) \<Longrightarrow> has_fence s"
proof -
  assume "has_fence (trim s)"
  then obtain p q where t: "trim s = p @ fence @ q" unfolding has_fence_iff by blast
  obtain pre post where "s = pre @ trim s @ post" using trim_decomp by blast
  with t have "s = (pre @ p) @ fence @ (q @ post)" by simp
  then show ?thesis unfolding has_fence_iff by blast
qed

lemma no_fence_cleanCode: "\<not> has_fence (cleanCode x)"
  unfolding cleanCode_def using has_fence_trim no_fence_strip_fence by blast

lemma strip_open_id: "\<not> has_fence s \<Longrightarrow> strip_open s = s"
  by (induction s) (auto simp: match_open_def)

lemma strip_fence_id: "\<not> has_fence s \<Longrightarrow> strip_fence s = s"
  by (induction s rule: strip_fence.induct) (auto simp: fence_def)

lemma trim_id: "s = [] \<or> (\<not> is_ws (hd s) \<and> \<not> is_ws (last s)) \<Longrightarrow> trim s = s"
proof (cases s)
  case Nil
  then show ?thesis by (simp add: trim_def)
next
  case (Cons a as)
  assume "s = [] \<or> (\<not> is_ws (hd s) \<and> \<not> is_ws (last s))"
  with Cons have h: "\<not> is_ws (hd s)" and l: "\<not> is_ws (last s)" and ne: "s \<noteq> []" by auto
  from h ne have 1: "dropWhile is_ws s = s" by (cases s) auto
  from l ne have 2: "dropWhile is_ws (rev s) = rev s" by (cases "rev s") (auto simp: last_rev hd_rev)
  show ?thesis by (simp add: trim_def 1 2)
qed

lemma trim_ends: "trim s = [] \<or> (\<not> is_ws (hd (trim s)) \<and> \<not> is_ws (last (trim s)))"
proof (cases "trim s = []")
  case True
  then show ?thesis by simp
next
  case False
  let ?t = "dropWhile is_ws s"
  let ?u = "dropWhile is_ws (rev ?t)"
  from False have une: "?u \<noteq> []" by (simp add: trim_def)
  then have "\<not> is_ws (hd ?u)" by (rule hd_dropWhile)
  with une have l: "\<not> is_ws (last (trim s))" by (simp add: trim_def last_rev)
  have tne: "?t \<noteq> []"
  proof
    assume "?t = []"
    with une show False by (metis dropWhile.simps(1) rev.simps(1))
  qed
  then have ht: "\<not> is_ws (hd ?t)" by (rule hd_dropWhile)
  have "?t = trim s @ rev (takeWhile is_ws (rev ?t))"
    by (metis rev_append rev_rev_ident takeWhile_dropWhile_id trim_def)
  with False have "hd ?t = hd (trim s)" by (metis hd_append2)
  with ht l show ?thesis by simp
qed

lemma cleanCode_clean: "clean (cleanCode x)"
  unfolding clean_def using no_fence_cleanCode [of x] trim_ends [of "strip_fence (strip_open x)"]
  by (simp add: cleanCode_def)

lemma cleanCode_id: "clean x \<Longrightarrow> cleanCode x = x"
  by (simp add: clean_def cleanCode_def strip_open_id strip_fence_id trim_id)

lemma match_open_marker:
  "list_all is_word tag \<Longrightarrow> match_open (fence @ tag @ nl # rest) = Some rest"
proof -
  assume "list_all is_word tag"
  then have "dropWhile is_word (tag @ nl # rest) = nl # rest"
    by (simp add: dropWhile_append2 list_all_iff)
  then show ?thesis by (simp add: match_open_def fence_def)
qed

lemma strip_open_marker:
  "list_all is_word tag \<Longrightarrow> strip_open (fence @ tag @ nl # rest) = strip_open rest"
proof -
  assume "list_all is_word tag"
  then have m: "match_open (bt # bt # bt # tag @ nl # rest) = Some rest"
    using match_open_marker [of tag rest] by (simp add: fence_def)
  have e: "fence @ tag @ nl # rest = bt # bt # bt # tag @ nl # rest" by (simp add: fence_def)
  show ?thesis by (subst e, subst strip_open.simps(2)) (simp add: m)
qed

lemma strip_fence_Cons: "a \<noteq> bt \<Longrightarrow> strip_fence (a # s) = a # strip_fence s"
proof (cases s)
  case (Cons b bs)
  assume "a \<noteq> bt"
  with Cons show ?thesis by (cases bs) auto
qed simp

lemma strip_fence_Cons2: "b \<noteq> bt \<Longrightarrow> strip_fence (a # b # s) = a # b # strip_fence s"
  by (cases s) (auto simp: strip_fence_Cons)

lemma strip_fence_insert: "strip_fence (pre @ fence @ post) = strip_fence (pre @ post)"
proof (induction pre rule: strip_fence.induct)
  case (1 a b c cs)
  then show ?case by (auto simp: fence_def)
qed (auto simp: fence_def strip_fence_Cons strip_fence_Cons2)

lemma match_open_end: "\<not> has_fence s \<Longrightarrow> match_open (s @ fence) = None"
  by (cases s rule: strip_fence.cases) (auto simp: match_open_def fence_def)

lemma strip_open_end: "\<not> has_fence s \<Longrightarrow> strip_open (s @ fence) = s @ fence"
proof (induction s)
  case Nil
  show ?case by (simp add: fence_def match_open_def)
next
  case (Cons c cs)
  from Cons.prems have "match_open ((c # cs) @ fence) = None" by (rule match_open_end)
  with Cons show ?case by simp
qed

text \<open>
  C10. Whatever the input, the output of the sanitizer holds no three-backtick sequence:
  it is never of the form \<open>pre @ fence @ post\<close>.
\<close>

theorem cleanCode_no_fence: "\<nexists>pre post. cleanCode x = pre @ fence @ post"
  using no_fence_cleanCode [of x] unfolding has_fence_iff by blast

text \<open>
  C7. The sanitizer is idempotent, and it returns a clean text (no fence, no white space
  at either end) as it is.
\<close>

theorem cleanCode_idempotent: "cleanCode (cleanCode x) = cleanCode x \<and> (clean x \<longrightarrow> cleanCode x = x)"
  using cleanCode_clean cleanCode_id by blast

theorem cleanCode_idempotent_witness:
  "clean (lit ''let x = `a`;'') \<and>
   cleanCode (cleanCode (lit ''let x = `a`;'')) = cleanCode (lit ''let x = `a`;'') \<and>
   cleanCode (lit ''let x = `a`;'') = lit ''let x = `a`;''"
proof -
  have c: "clean (lit ''let x = `a`;'')"
    by (simp add: clean_def lit_def fence_def bt_def is_ws_def)
  with cleanCode_idempotent [of "lit ''let x = `a`;''"] show ?thesis by blast
qed

lemma match_open_eq_None:
  "match_open s = None \<longleftrightarrow>
     (take 3 s = fence \<longrightarrow> (\<forall>r. dropWhile is_word (drop 3 s) \<noteq> nl # r))"
  by (auto simp: match_open_def simp del: dropWhile_eq_Nil_conv split: list.splits)

lemma match_open_eq_Some:
  "match_open s = Some r \<longleftrightarrow> take 3 s = fence \<and> dropWhile is_word (drop 3 s) = nl # r"
  by (auto simp: match_open_def simp del: dropWhile_eq_Nil_conv split: list.splits if_splits)

lemma dropWhile_word_append:
  assumes "\<forall>r. dropWhile is_word xs \<noteq> nl # r" "\<forall>r. dropWhile is_word ys \<noteq> nl # r"
  shows "dropWhile is_word (xs @ ys) \<noteq> nl # r"
proof (cases "\<forall>x\<in>set xs. is_word x")
  case True
  then have "dropWhile is_word (xs @ ys) = dropWhile is_word ys" by (simp add: dropWhile_append2)
  with assms(2) show ?thesis by simp
next
  case False
  then obtain z where z: "z \<in> set xs" "\<not> is_word z" by blast
  then have e: "dropWhile is_word (xs @ ys) = dropWhile is_word xs @ ys"
    by (rule dropWhile_append1)
  from z have "dropWhile is_word xs \<noteq> []" by (auto simp: dropWhile_eq_Nil_conv)
  then obtain x r' where x: "dropWhile is_word xs = x # r'" by (cases "dropWhile is_word xs") auto
  with assms(1) have "x \<noteq> nl" by auto
  with e x show ?thesis by simp
qed

lemma match_open_append_Some:
  assumes "match_open s = Some r"
  shows "match_open (s @ t) = Some (r @ t)"
proof -
  from assms have t3: "take 3 s = fence" and d: "dropWhile is_word (drop 3 s) = nl # r"
    by (simp_all add: match_open_eq_Some)
  from t3 have "length (take 3 s) = 3" by (simp add: fence_def)
  then have l: "3 \<le> length s" by simp
  from d have "dropWhile is_word (drop 3 s) \<noteq> []" by (simp del: dropWhile_eq_Nil_conv)
  then obtain z where "z \<in> set (drop 3 s)" "\<not> is_word z"
    by (auto simp: dropWhile_eq_Nil_conv)
  then have "dropWhile is_word (drop 3 s @ t) = dropWhile is_word (drop 3 s) @ t"
    by (rule dropWhile_append1)
  with d have "dropWhile is_word (drop 3 (s @ t)) = nl # r @ t" using l by simp
  moreover from t3 l have "take 3 (s @ t) = fence" by simp
  ultimately show ?thesis by (simp only: match_open_eq_Some)
qed

lemma strip_open_append:
  assumes "\<And>s. s \<noteq> [] \<Longrightarrow> match_open s = None \<Longrightarrow> match_open (s @ t) = None"
  shows "strip_open (pre @ t) = strip_open pre @ strip_open t"
proof (induction pre rule: strip_open.induct)
  case 1
  show ?case by simp
next
  case (2 c cs)
  show ?case
  proof (cases "match_open (c # cs)")
    case None
    with assms [of "c # cs"] have "match_open ((c # cs) @ t) = None" by simp
    with None 2 show ?thesis by simp
  next
    case (Some r)
    then have "match_open ((c # cs) @ t) = Some (r @ t)" by (rule match_open_append_Some)
    with Some 2 show ?thesis by simp
  qed
qed

lemma list3_cases:
  fixes s :: jsstring
  obtains (long) a b c cs where "s = a # b # c # cs"
    | (none) "s = []" | (one) v where "s = [v]" | (two) v vb where "s = [v, vb]"
  by (cases s rule: strip_fence.cases) auto

lemma match_open_before_fence:
  assumes "s \<noteq> []" "match_open s = None"
  shows "match_open (s @ fence @ rest) = None"
proof (cases s rule: list3_cases)
  case (long a b c cs)
  have f: "\<forall>r. dropWhile is_word (fence @ rest) \<noteq> nl # r" by (simp add: fence_def)
  show ?thesis
  proof (cases "take 3 s = fence")
    case False
    with long show ?thesis by (simp add: match_open_eq_None)
  next
    case True
    with assms(2) long have "\<forall>r. dropWhile is_word cs \<noteq> nl # r" by (simp add: match_open_eq_None)
    then have "\<forall>r. dropWhile is_word (cs @ fence @ rest) \<noteq> nl # r"
      using f dropWhile_word_append by blast
    with long show ?thesis by (simp add: match_open_eq_None)
  qed
next
  case none
  with assms show ?thesis by simp
next
  case (one v)
  then show ?thesis by (simp add: match_open_eq_None fence_def)
next
  case (two v vb)
  then show ?thesis by (simp add: match_open_eq_None fence_def)
qed

lemma strip_open_before_fence:
  "strip_open (pre @ fence @ rest) = strip_open pre @ strip_open (fence @ rest)"
  by (rule strip_open_append) (rule match_open_before_fence)

lemma match_open_before_closing:
  assumes c: "match_open (fence @ post) = None" "match_open (bt # bt # post) = None"
      "match_open (bt # post) = None"
    and s: "s \<noteq> []" "match_open s = None"
  shows "match_open (s @ post) = None"
proof (cases s rule: list3_cases)
  case (long a b c cs)
  from c(1) have p: "\<forall>r. dropWhile is_word post \<noteq> nl # r"
    by (simp add: match_open_eq_None fence_def)
  show ?thesis
  proof (cases "take 3 s = fence")
    case False
    with long show ?thesis by (simp add: match_open_eq_None)
  next
    case True
    with s(2) long have "\<forall>r. dropWhile is_word cs \<noteq> nl # r" by (simp add: match_open_eq_None)
    then have "\<forall>r. dropWhile is_word (cs @ post) \<noteq> nl # r"
      using p dropWhile_word_append by blast
    with long show ?thesis by (simp add: match_open_eq_None)
  qed
next
  case none
  with s show ?thesis by simp
next
  case (one v)
  show ?thesis
  proof (cases "v = bt")
    case True
    with one c(3) show ?thesis by simp
  next
    case False
    with one show ?thesis by (simp add: match_open_eq_None fence_def)
  qed
next
  case (two v vb)
  show ?thesis
  proof (cases "v = bt \<and> vb = bt")
    case True
    with two c(2) show ?thesis by simp
  next
    case False
    with two show ?thesis by (auto simp: match_open_eq_None fence_def)
  qed
qed

lemma strip_open_opening:
  assumes "list_all is_word tag"
  shows "strip_open (pre @ fence @ tag @ [nl] @ post) = strip_open pre @ strip_open post"
  using assms strip_open_before_fence [of pre "tag @ nl # post"]
  by (simp add: strip_open_marker)

lemma strip_open_closing:
  assumes "match_open (fence @ post) = None" "match_open (bt # bt # post) = None"
      "match_open (bt # post) = None"
  shows "strip_open (pre @ fence @ post) = strip_open pre @ fence @ strip_open post"
    and "strip_open (pre @ post) = strip_open pre @ strip_open post"
proof -
  from assms(1) have 0: "match_open (bt # bt # bt # post) = None" by (simp add: fence_def)
  have "strip_open (bt # bt # bt # post) = bt # bt # bt # strip_open post"
    by (simp add: 0 assms(2,3))
  then have "strip_open (fence @ post) = fence @ strip_open post" by (simp add: fence_def)
  then show "strip_open (pre @ fence @ post) = strip_open pre @ fence @ strip_open post"
    by (simp add: strip_open_before_fence)
  show "strip_open (pre @ post) = strip_open pre @ strip_open post"
    by (rule strip_open_append) (rule match_open_before_closing [OF assms])
qed

lemma match_open_SomeD:
  assumes "match_open s = Some r"
  shows "\<exists>tag. list_all is_word tag \<and> s = fence @ tag @ [nl] @ r"
proof -
  from assms have t3: "take 3 s = fence" and d: "dropWhile is_word (drop 3 s) = nl # r"
    by (simp_all add: match_open_eq_Some)
  have "s = fence @ takeWhile is_word (drop 3 s) @ nl # r"
    by (metis t3 d append_take_drop_id takeWhile_dropWhile_id)
  then have "s = fence @ takeWhile is_word (drop 3 s) @ [nl] @ r" by (simp only: append.simps)
  moreover have "list_all is_word (takeWhile is_word (drop 3 s))"
    by (auto simp: list_all_iff dest: set_takeWhileD)
  ultimately show ?thesis by blast
qed

lemma fence_is_marker:
  "(match_open (fence @ post) = None \<and> match_open (bt # bt # post) = None \<and>
    match_open (bt # post) = None) \<or>
   (\<exists>t rest. list_all is_word t \<and>
      (fence @ post = fence @ t @ [nl] @ rest \<or> bt # bt # post = fence @ t @ [nl] @ rest \<or>
       bt # post = fence @ t @ [nl] @ rest))"
proof (cases "match_open (fence @ post) = None \<and> match_open (bt # bt # post) = None \<and>
    match_open (bt # post) = None")
  case True
  then show ?thesis by blast
next
  case False
  then consider r where "match_open (fence @ post) = Some r"
    | r where "match_open (bt # bt # post) = Some r" | r where "match_open (bt # post) = Some r"
    by auto
  then show ?thesis
  proof cases
    case 1
    from match_open_SomeD [OF this] show ?thesis by blast
  next
    case 2
    from match_open_SomeD [OF this] show ?thesis by blast
  next
    case 3
    from match_open_SomeD [OF this] show ?thesis by blast
  qed
qed

text \<open>
  C8, as the code has it. A text made of an opening marker (three backticks, a tag of
  word characters, a newline), an interior without a fence and a closing marker is
  sanitized to its trimmed interior. An opening marker is removed wherever it stands,
  whatever text precedes and follows it: the first replace leaves what it leaves of the
  text before, followed by what it leaves of the text behind, and nothing of the marker.
  So is a closing marker, three backticks at which no opening marker starts, nor one or
  two characters later: whatever text precedes it, the text is sanitized as it is without
  the marker. Three backticks anywhere are one or the other: a closing marker, or an
  opening marker starts at them or one or two characters later. The second replace drops
  three backticks wherever they stand in what the first has left, and no fence of any
  kind is in the output.
\<close>

theorem cleanCode_fenced:
  "(list_all is_word tag \<and> \<not> has_fence interior \<longrightarrow>
     cleanCode (fence @ tag @ [nl] @ interior @ fence) = trim interior) \<and>
   (list_all is_word tag \<longrightarrow>
     strip_open (pre @ fence @ tag @ [nl] @ post) = strip_open pre @ strip_open post \<and>
     cleanCode (pre @ fence @ tag @ [nl] @ post) =
       trim (strip_fence (strip_open pre @ strip_open post))) \<and>
   (match_open (fence @ post) = None \<and> match_open (bt # bt # post) = None \<and>
    match_open (bt # post) = None \<longrightarrow>
     cleanCode (pre @ fence @ post) = cleanCode (pre @ post)) \<and>
   ((match_open (fence @ post) = None \<and> match_open (bt # bt # post) = None \<and>
     match_open (bt # post) = None) \<or>
    (\<exists>t rest. list_all is_word t \<and>
       (fence @ post = fence @ t @ [nl] @ rest \<or> bt # bt # post = fence @ t @ [nl] @ rest \<or>
        bt # post = fence @ t @ [nl] @ rest))) \<and>
   strip_fence (pre @ fence @ post) = strip_fence (pre @ post) \<and>
   \<not> has_fence (cleanCode x)"
proof (intro conjI impI)
  assume h: "list_all is_word tag \<and> \<not> has_fence interior"
  then have "strip_open (fence @ tag @ nl # interior @ fence) = interior @ fence"
    by (simp add: strip_open_marker strip_open_end)
  moreover have "strip_fence (interior @ fence) = interior"
    using h strip_fence_insert [of interior "[]"] by (simp add: strip_fence_id)
  ultimately show "cleanCode (fence @ tag @ [nl] @ interior @ fence) = trim interior"
    by (simp add: cleanCode_def)
next
  assume h: "list_all is_word tag"
  then show o: "strip_open (pre @ fence @ tag @ [nl] @ post) = strip_open pre @ strip_open post"
    by (rule strip_open_opening)
  then show "cleanCode (pre @ fence @ tag @ [nl] @ post) =
       trim (strip_fence (strip_open pre @ strip_open post))"
    by (simp add: cleanCode_def)
next
  assume h: "match_open (fence @ post) = None \<and> match_open (bt # bt # post) = None \<and>
    match_open (bt # post) = None"
  then have "strip_open (pre @ fence @ post) = strip_open pre @ fence @ strip_open post"
    and "strip_open (pre @ post) = strip_open pre @ strip_open post"
    by (simp_all add: strip_open_closing)
  then show "cleanCode (pre @ fence @ post) = cleanCode (pre @ post)"
    by (simp add: cleanCode_def strip_fence_insert)
next
  show "(match_open (fence @ post) = None \<and> match_open (bt # bt # post) = None \<and>
     match_open (bt # post) = None) \<or>
    (\<exists>t rest. list_all is_word t \<and>
       (fence @ post = fence @ t @ [nl] @ rest \<or> bt # bt # post = fence @ t @ [nl] @ rest \<or>
        bt # post = fence @ t @ [nl] @ rest))"
    by (rule fence_is_marker)
  show "strip_fence (pre @ fence @ post) = strip_fence (pre @ post)" by (rule strip_fence_insert)
  show "\<not> has_fence (cleanCode x)" by (rule no_fence_cleanCode)
qed

theorem cleanCode_fenced_witness:
  "cleanCode (fence @ lit ''ts'' @ [nl] @ lit ''  let x = 1;  '' @ fence) = lit ''let x = 1;'' \<and>
   cleanCode (lit ''`a`'' @ fence @ lit ''ts'' @ [nl] @ lit ''b'') = lit ''`a`b'' \<and>
   cleanCode (lit ''`a`'' @ fence @ lit ''b'') = lit ''`a`b''"
proof -
  have tag: "list_all is_word (lit ''ts'')" by (simp add: lit_def is_word_def)
  have interior: "\<not> has_fence (lit ''  let x = 1;  '')" by (simp add: lit_def fence_def bt_def)
  have post: "match_open (fence @ lit ''b'') = None" "match_open (bt # bt # lit ''b'') = None"
      "match_open (bt # lit ''b'') = None"
    by (simp_all add: lit_def match_open_def fence_def bt_def is_word_def)
  have parts: "trim (strip_fence (strip_open (lit ''`a`'') @ strip_open (lit ''b''))) = lit ''`a`b''"
    by (simp add: lit_def match_open_def fence_def bt_def trim_def is_ws_def)
  have plain: "cleanCode (lit ''`a`'' @ lit ''b'') = lit ''`a`b''"
    by (simp add: lit_def cleanCode_def match_open_def fence_def bt_def trim_def is_ws_def)
  have tr: "trim (lit ''  let x = 1;  '') = lit ''let x = 1;''"
    by (simp add: lit_def trim_def is_ws_def)
  note inst = cleanCode_fenced [of "lit ''ts''" "lit ''  let x = 1;  ''" "lit ''`a`''" "lit ''b''"]
  from inst [THEN conjunct1] tag interior tr
  have 1: "cleanCode (fence @ lit ''ts'' @ [nl] @ lit ''  let x = 1;  '' @ fence) = lit ''let x = 1;''"
    by simp
  from inst [THEN conjunct2, THEN conjunct1] tag parts
  have 2: "cleanCode (lit ''`a`'' @ fence @ lit ''ts'' @ [nl] @ lit ''b'') = lit ''`a`b''"
    by simp
  from inst [THEN conjunct2, THEN conjunct2, THEN conjunct1] post plain
  have 3: "cleanCode (lit ''`a`'' @ fence @ lit ''b'') = lit ''`a`b''"
    by simp
  from 1 2 3 show ?thesis by simp
qed

text \<open>
  C8, as it is written, has opening markers removed only where they lead the text, and
  any language name for a tag. On \<^verbatim>\<open>a```ts\<close>, newline, \<^verbatim>\<open>b\<close> a sanitizer that strips
  leading markers only would leave the tag and the newline; the code removes the whole
  marker. And behind a leading \<^verbatim>\<open>```c++\<close> the code finds no newline after the word
  characters, removes the backticks alone and leaves the tag in the text.
\<close>

theorem cleanCode_inner_marker:
  "cleanCode inner_marker = lit ''ab'' \<and>
   sanitize_leading_only inner_marker = lit ''ats\<newline>b'' \<and>
   cleanCode inner_marker \<noteq> sanitize_leading_only inner_marker \<and>
   cleanCode (fence @ lit ''c++'' @ [nl] @ lit ''x'' @ fence) = lit ''c++\<newline>x''"
  by (simp add: inner_marker_def lit_def cleanCode_def sanitize_leading_only_def
      strip_leading_open_def match_open_def fence_def bt_def nl_def is_word_def trim_def is_ws_def)

section \<open>Properties of the client\<close>

declare attempt_loop.simps [simp del]

lemma mk_request_logs [simp]:
  "mk_request (w\<lparr>fetch_log := fl\<rparr>) m t = mk_request w m t"
  "mk_request (w\<lparr>sleep_log := sl\<rparr>) m t = mk_request w m t"
  "mk_request (w\<lparr>console := c\<rparr>) m t = mk_request w m t"
  by (simp_all add: mk_request_def MODEL_def)

lemma loop_exhausted: "retries < attempt \<Longrightarrow> attempt_loop m t retries attempt w = (Inr (JStr []), w)"
  by (simp add: attempt_loop.simps)

lemma loop_returns:
  assumes "attempt \<le> retries"
    and "try_attempt (net w (fetch_log w @ [mk_request w m t])) = Returned v"
  shows "attempt_loop m t retries attempt w =
    (Inr v, w\<lparr>fetch_log := fetch_log w @ [mk_request w m t]\<rparr>)"
  using assms by (simp add: attempt_loop.simps fetch_def)

lemma loop_throws_last:
  assumes "try_attempt (net w (fetch_log w @ [mk_request w m t])) = Thrown e"
  shows "attempt_loop m t retries retries w =
    (Inl e, w\<lparr>fetch_log := fetch_log w @ [mk_request w m t]\<rparr>)"
  using assms by (simp add: attempt_loop.simps fetch_def)

lemma loop_rate_limited:
  assumes "\<forall>i<n. try_attempt (net w (fetch_log w @ replicate (Suc i) (mk_request w m t))) = RateLimited"
    and "attempt + n \<le> Suc retries"
  shows "attempt_loop m t retries attempt w =
    attempt_loop m t retries (attempt + n)
      (w\<lparr>fetch_log := fetch_log w @ replicate n (mk_request w m t),
         sleep_log := sleep_log w @ map (\<lambda>i. 2000 * i) [attempt..<attempt + n]\<rparr>)"
  using assms
proof (induction n arbitrary: attempt w)
  case 0
  show ?case by simp
next
  case (Suc n)
  let ?req = "mk_request w m t"
  let ?w1 = "sleep (2000 * attempt) (w\<lparr>fetch_log := fetch_log w @ [?req]\<rparr>)"
  from Suc.prems(1) have first: "try_attempt (net w (fetch_log w @ [?req])) = RateLimited"
    by (metis replicate_0 replicate_Suc zero_less_Suc)
  from Suc.prems(2) have le: "attempt \<le> retries" by simp
  have step: "attempt_loop m t retries attempt w = attempt_loop m t retries (Suc attempt) ?w1"
    using first le by (subst attempt_loop.simps) (simp add: fetch_def)
  have rest: "\<forall>i<n. try_attempt (net ?w1 (fetch_log ?w1 @ replicate (Suc i) (mk_request ?w1 m t)))
      = RateLimited"
  proof (intro allI impI)
    fix i assume "i < n"
    then have "try_attempt (net w (fetch_log w @ replicate (Suc (Suc i)) ?req)) = RateLimited"
      using Suc.prems(1) [rule_format, of "Suc i"] by simp
    then show "try_attempt (net ?w1 (fetch_log ?w1 @ replicate (Suc i) (mk_request ?w1 m t)))
      = RateLimited"
      by (simp add: sleep_def)
  qed
  from Suc.prems(2) have "Suc attempt + n \<le> Suc retries" by simp
  from Suc.IH [OF rest this]
  have "attempt_loop m t retries (Suc attempt) ?w1 =
    attempt_loop m t retries (Suc attempt + n)
      (?w1\<lparr>fetch_log := fetch_log ?w1 @ replicate n (mk_request ?w1 m t),
         sleep_log := sleep_log ?w1 @ map (\<lambda>i. 2000 * i) [Suc attempt..<Suc attempt + n]\<rparr>)" .
  also have "(?w1\<lparr>fetch_log := fetch_log ?w1 @ replicate n (mk_request ?w1 m t),
         sleep_log := sleep_log ?w1 @ map (\<lambda>i. 2000 * i) [Suc attempt..<Suc attempt + n]\<rparr>)
     = (w\<lparr>fetch_log := fetch_log w @ replicate (Suc n) ?req,
         sleep_log := sleep_log w @ map (\<lambda>i. 2000 * i) [attempt..<attempt + Suc n]\<rparr>)"
    by (simp add: sleep_def upt_conv_Cons)
  finally show ?case using step by simp
qed

lemma loop_thrown:
  assumes "\<forall>i<n. \<exists>e. try_attempt (net w (fetch_log w @ replicate (Suc i) (mk_request w m t))) = Thrown e"
    and "attempt + n \<le> retries"
  shows "attempt_loop m t retries attempt w =
    attempt_loop m t retries (attempt + n)
      (w\<lparr>fetch_log := fetch_log w @ replicate n (mk_request w m t),
         sleep_log := sleep_log w @ replicate n 1000\<rparr>)"
  using assms
proof (induction n arbitrary: attempt w)
  case 0
  show ?case by simp
next
  case (Suc n)
  let ?req = "mk_request w m t"
  let ?w1 = "sleep 1000 (w\<lparr>fetch_log := fetch_log w @ [?req]\<rparr>)"
  from Suc.prems(1) obtain e where first: "try_attempt (net w (fetch_log w @ [?req])) = Thrown e"
    by (metis replicate_0 replicate_Suc zero_less_Suc)
  from Suc.prems(2) have le: "attempt \<le> retries" "attempt \<noteq> retries" by simp_all
  have step: "attempt_loop m t retries attempt w = attempt_loop m t retries (Suc attempt) ?w1"
    using first le by (subst attempt_loop.simps) (simp add: fetch_def)
  have rest: "\<forall>i<n. \<exists>e. try_attempt (net ?w1 (fetch_log ?w1 @ replicate (Suc i) (mk_request ?w1 m t)))
      = Thrown e"
  proof (intro allI impI)
    fix i assume "i < n"
    then have "\<exists>e. try_attempt (net w (fetch_log w @ replicate (Suc (Suc i)) ?req)) = Thrown e"
      using Suc.prems(1) [rule_format, of "Suc i"] by simp
    then show "\<exists>e. try_attempt (net ?w1 (fetch_log ?w1 @ replicate (Suc i) (mk_request ?w1 m t)))
      = Thrown e"
      by (simp add: sleep_def)
  qed
  from Suc.prems(2) have "Suc attempt + n \<le> retries" by simp
  from Suc.IH [OF rest this]
  have "attempt_loop m t retries (Suc attempt) ?w1 =
    attempt_loop m t retries (Suc attempt + n)
      (?w1\<lparr>fetch_log := fetch_log ?w1 @ replicate n (mk_request ?w1 m t),
         sleep_log := sleep_log ?w1 @ replicate n 1000\<rparr>)" .
  also have "(?w1\<lparr>fetch_log := fetch_log ?w1 @ replicate n (mk_request ?w1 m t),
         sleep_log := sleep_log ?w1 @ replicate n 1000\<rparr>)
     = (w\<lparr>fetch_log := fetch_log w @ replicate (Suc n) ?req,
         sleep_log := sleep_log w @ replicate (Suc n) 1000\<rparr>)"
    by (simp add: sleep_def)
  finally show ?case using step by simp
qed

lemma try_attempt_rate_limited: "rate_limited fo \<Longrightarrow> try_attempt fo = RateLimited"
  by (auto simp: rate_limited_def try_attempt_def split: fetch_outcome.splits)

lemma try_attempt_fails: "fails_with fo e \<Longrightarrow> try_attempt fo = Thrown e"
  by (auto simp: fails_with_def try_attempt_def split: fetch_outcome.splits if_splits)

lemma demo_key: "\<not> absent (api_key (demo_world n))"
  by (simp add: demo_world_def absent_def lit_def)

lemma reply_content:
  "get_member (JObj [(lit ''choices'', JArr [JObj [(lit ''message'', JObj [(lit ''content'', JStr c)])]])]) (lit ''choices'')
     = Inr (JArr [JObj [(lit ''message'', JObj [(lit ''content'', JStr c)])]])"
  "get_index0 (JArr [JObj [(lit ''message'', JObj [(lit ''content'', JStr c)])]])
     = Inr (JObj [(lit ''message'', JObj [(lit ''content'', JStr c)])])"
  "opt_member (opt_member (JObj [(lit ''message'', JObj [(lit ''content'', JStr c)])]) (lit ''message'')) (lit ''content'') = JStr c"
  by (simp_all add: opt_member_def lit_def)

lemma query_throws:
  assumes key: "\<not> absent (api_key w)" and r: "1 \<le> retries"
    and thrown: "\<forall>i<retries. try_attempt (net w (fetch_log w @ replicate (Suc i) (mk_request w m t))) = Thrown (errs i)"
  shows "queryOpenRouter m t retries w =
    (Inl (errs (retries - 1)),
     w\<lparr>fetch_log := fetch_log w @ replicate retries (mk_request w m t),
       sleep_log := sleep_log w @ replicate (retries - 1) 1000\<rparr>)"
proof -
  let ?req = "mk_request w m t"
  let ?n = "retries - 1"
  let ?w = "w\<lparr>fetch_log := fetch_log w @ replicate ?n ?req,
       sleep_log := sleep_log w @ replicate ?n 1000\<rparr>"
  from r have n: "1 + ?n = retries" by simp
  from thrown have "\<forall>i<?n. \<exists>e. try_attempt (net w (fetch_log w @ replicate (Suc i) ?req)) = Thrown e"
    by simp
  moreover have "1 + ?n \<le> retries" using n by simp
  ultimately have "attempt_loop m t retries 1 w = attempt_loop m t retries (1 + ?n) ?w"
    by (rule loop_thrown)
  with n have 1: "attempt_loop m t retries 1 w = attempt_loop m t retries retries ?w" by simp
  from r have rk: "replicate ?n ?req @ [?req] = replicate retries ?req"
    by (metis Suc_pred' less_eq_Suc_le One_nat_def replicate_Suc replicate_append_same)
  have "?n < retries" using r by simp
  with thrown have "try_attempt (net w (fetch_log w @ replicate (Suc ?n) ?req)) = Thrown (errs ?n)"
    by blast
  moreover have "Suc ?n = retries" using r by simp
  ultimately have "try_attempt (net w (fetch_log w @ replicate retries ?req)) = Thrown (errs ?n)"
    by metis
  then have "try_attempt (net ?w (fetch_log ?w @ [mk_request ?w m t])) = Thrown (errs ?n)"
    using rk by simp
  then have "attempt_loop m t retries retries ?w =
      (Inl (errs ?n), ?w\<lparr>fetch_log := fetch_log ?w @ [mk_request ?w m t]\<rparr>)"
    by (rule loop_throws_last)
  with key 1 show ?thesis using rk by (simp add: queryOpenRouter_def)
qed

lemma try_attempt_reply: "try_attempt (Responds (reply c)) = Returned (JStr c)"
  by (cases "c = []")
    (simp_all add: try_attempt_def reply_def ok_def extract_content_def opt_member_def lit_def)

lemma query_replies:
  assumes "\<not> absent (api_key w)"
    and "net w (fetch_log w @ [mk_request w m t]) = Responds (reply c)"
  shows "queryOpenRouter m t 5 w = (Inr (JStr c), w\<lparr>fetch_log := fetch_log w @ [mk_request w m t]\<rparr>)"
proof -
  from assms(2) have "try_attempt (net w (fetch_log w @ [mk_request w m t])) = Returned (JStr c)"
    by (simp add: try_attempt_reply)
  with loop_returns [of 1 5 w m t "JStr c"] assms(1) show ?thesis
    by (simp add: queryOpenRouter_def)
qed

lemma try_attempt_server_error: "try_attempt (Responds server_error) = Thrown (ApiError 500)"
  by (simp add: try_attempt_def server_error_def ok_def)

text \<open>
  C3. With a key, and \<open>1 \<le> k \<le> retries\<close>: when the first \<open>k - 1\<close> attempts are
  answered with status 429 and attempt \<open>k\<close> with a success whose first choice has the
  message content \<open>c\<close>, the client returns \<open>c\<close> after exactly \<open>k\<close> requests and the
  sleeps of 2000 times 1, ..., 2000 times \<open>k - 1\<close> milliseconds, in this order.
\<close>

theorem queryOpenRouter_backoff_then_success:
  assumes key: "\<not> absent (api_key w)" and k: "1 \<le> k" "k \<le> retries"
    and limited: "\<forall>i<k - 1. rate_limited (net w (fetch_log w @ replicate (Suc i) (mk_request w m t)))"
    and success: "net w (fetch_log w @ replicate k (mk_request w m t)) = Responds r"
      "ok r" "body r = Inr data"
    and content: "get_member data (lit ''choices'') = Inr choices" "get_index0 choices = Inr first"
      "opt_member (opt_member first (lit ''message'')) (lit ''content'') = JStr c"
  shows "queryOpenRouter m t retries w =
    (Inr (JStr c),
     w\<lparr>fetch_log := fetch_log w @ replicate k (mk_request w m t),
       sleep_log := sleep_log w @ map (\<lambda>i. 2000 * i) [1..<k]\<rparr>)"
proof -
  let ?req = "mk_request w m t"
  let ?w = "w\<lparr>fetch_log := fetch_log w @ replicate (k - 1) ?req,
       sleep_log := sleep_log w @ map (\<lambda>i. 2000 * i) [1..<1 + (k - 1)]\<rparr>"
  from limited have "\<forall>i<k - 1. try_attempt (net w (fetch_log w @ replicate (Suc i) ?req)) = RateLimited"
    by (simp add: try_attempt_rate_limited)
  moreover from k have "1 + (k - 1) \<le> Suc retries" by simp
  ultimately have 1: "attempt_loop m t retries 1 w = attempt_loop m t retries (1 + (k - 1)) ?w"
    by (rule loop_rate_limited)
  from k have rk: "replicate (k - 1) ?req @ [?req] = replicate k ?req"
    by (metis Suc_pred' less_eq_Suc_le One_nat_def replicate_Suc replicate_append_same)
  from success have "status r \<noteq> 429" by (simp add: ok_def)
  with success content have "try_attempt (net w (fetch_log w @ replicate k ?req)) = Returned (JStr c)"
    by (cases "c = []") (simp_all add: try_attempt_def extract_content_def)
  then have "try_attempt (net ?w (fetch_log ?w @ [mk_request ?w m t])) = Returned (JStr c)"
    using rk by simp
  moreover from k have "1 + (k - 1) \<le> retries" by simp
  ultimately have 2: "attempt_loop m t retries (1 + (k - 1)) ?w =
      (Inr (JStr c), ?w\<lparr>fetch_log := fetch_log ?w @ [mk_request ?w m t]\<rparr>)"
    by (rule loop_returns [rotated])
  from k have "1 + (k - 1) = k" by simp
  with key 1 2 show ?thesis using rk by (simp add: queryOpenRouter_def)
qed

theorem queryOpenRouter_backoff_then_success_witness:
  "queryOpenRouter hello (7 / 10) 5 (demo_world third_time_lucky) =
     (Inr (JStr (lit ''ok'')),
      (demo_world third_time_lucky)
        \<lparr>fetch_log := replicate 3 (mk_request (demo_world third_time_lucky) hello (7 / 10)),
         sleep_log := [2000, 4000]\<rparr>)"
proof -
  let ?w = "demo_world third_time_lucky"
  let ?req = "mk_request ?w hello (7 / 10)"
  have lim: "\<forall>i<3 - 1. rate_limited (net ?w (fetch_log ?w @ replicate (Suc i) ?req))"
    by (simp add: demo_world_def third_time_lucky_def rate_limited_def too_many_def)
  have suc: "net ?w (fetch_log ?w @ replicate 3 ?req) = Responds (reply (lit ''ok''))"
    by (simp add: demo_world_def third_time_lucky_def)
  have okr: "ok (reply (lit ''ok''))" by (simp add: ok_def reply_def)
  have bd: "body (reply (lit ''ok'')) = Inr (JObj [(lit ''choices'', JArr [JObj [(lit ''message'', JObj [(lit ''content'', JStr (lit ''ok''))])]])])"
    by (simp add: reply_def)
  have upt: "map ((*) 2000) [Suc 0..<3] = [2000, 4000::nat]" by (simp add: upt_rec)
  have fl: "fetch_log ?w = []" "sleep_log ?w = []" by (simp_all add: demo_world_def)
  from queryOpenRouter_backoff_then_success [OF demo_key _ _ lim suc okr bd reply_content, of 5]
  show ?thesis by (simp add: upt fl)
qed

text \<open>
  C4. With a key and \<open>1 \<le> retries\<close>: when every attempt fails with an error that is no
  rate limit, the client throws the error of the last attempt after exactly \<open>retries\<close>
  requests, having slept 1000 milliseconds after each failure but the last.
\<close>

theorem queryOpenRouter_raises_after_retries:
  assumes key: "\<not> absent (api_key w)" and r: "1 \<le> retries"
    and fails: "\<forall>i<retries. fails_with (net w (fetch_log w @ replicate (Suc i) (mk_request w m t))) (errs i)"
  shows "queryOpenRouter m t retries w =
    (Inl (errs (retries - 1)),
     w\<lparr>fetch_log := fetch_log w @ replicate retries (mk_request w m t),
       sleep_log := sleep_log w @ replicate (retries - 1) 1000\<rparr>)"
proof -
  from fails have "\<forall>i<retries.
      try_attempt (net w (fetch_log w @ replicate (Suc i) (mk_request w m t))) = Thrown (errs i)"
    by (simp add: try_attempt_fails)
  with key r show ?thesis by (rule query_throws)
qed

theorem queryOpenRouter_raises_after_retries_witness:
  "queryOpenRouter hello (7 / 10) 5 (demo_world (always server_error)) =
     (Inl (ApiError 500),
      (demo_world (always server_error))
        \<lparr>fetch_log := replicate 5 (mk_request (demo_world (always server_error)) hello (7 / 10)),
         sleep_log := [1000, 1000, 1000, 1000]\<rparr>)"
proof -
  let ?w = "demo_world (always server_error)"
  let ?req = "mk_request ?w hello (7 / 10)"
  have fails: "\<forall>i<5. fails_with (net ?w (fetch_log ?w @ replicate (Suc i) ?req)) ((\<lambda>i. ApiError 500) i)"
    by (simp add: demo_world_def always_def fails_with_def server_error_def ok_def)
  have fl: "fetch_log ?w = []" "sleep_log ?w = []" by (simp_all add: demo_world_def)
  have rp: "replicate 4 (1000::nat) = [1000, 1000, 1000, 1000]" by (simp add: numeral_eq_Suc)
  from queryOpenRouter_raises_after_retries [OF demo_key _ fails]
  show ?thesis by (simp add: fl rp)
qed

text \<open>
  C5. With a key: when every attempt is answered with status 429, the client returns the
  empty string and throws nothing, after \<open>retries\<close> requests and as many backoff sleeps.
\<close>

theorem queryOpenRouter_exhausted_returns_empty:
  assumes key: "\<not> absent (api_key w)"
    and limited: "\<forall>i<retries. rate_limited (net w (fetch_log w @ replicate (Suc i) (mk_request w m t)))"
  shows "queryOpenRouter m t retries w =
    (Inr (JStr []),
     w\<lparr>fetch_log := fetch_log w @ replicate retries (mk_request w m t),
       sleep_log := sleep_log w @ map (\<lambda>i. 2000 * i) [1..<Suc retries]\<rparr>)"
proof -
  let ?req = "mk_request w m t"
  from limited have "\<forall>i<retries. try_attempt (net w (fetch_log w @ replicate (Suc i) ?req)) = RateLimited"
    by (simp add: try_attempt_rate_limited)
  moreover have "1 + retries \<le> Suc retries" by simp
  ultimately have "attempt_loop m t retries 1 w = attempt_loop m t retries (1 + retries)
      (w\<lparr>fetch_log := fetch_log w @ replicate retries ?req,
         sleep_log := sleep_log w @ map (\<lambda>i. 2000 * i) [1..<1 + retries]\<rparr>)"
    by (rule loop_rate_limited)
  with key show ?thesis by (simp add: queryOpenRouter_def loop_exhausted)
qed

theorem queryOpenRouter_exhausted_returns_empty_witness:
  "queryOpenRouter hello (7 / 10) 5 (demo_world (always too_many)) =
     (Inr (JStr []),
      (demo_world (always too_many))
        \<lparr>fetch_log := replicate 5 (mk_request (demo_world (always too_many)) hello (7 / 10)),
         sleep_log := [2000, 4000, 6000, 8000, 10000]\<rparr>)"
proof -
  let ?w = "demo_world (always too_many)"
  let ?req = "mk_request ?w hello (7 / 10)"
  have lim: "\<forall>i<5. rate_limited (net ?w (fetch_log ?w @ replicate (Suc i) ?req))"
    by (simp add: demo_world_def always_def rate_limited_def too_many_def)
  have fl: "fetch_log ?w = []" "sleep_log ?w = []" by (simp_all add: demo_world_def)
  have upt: "map ((*) 2000) [Suc 0..<6] = [2000, 4000, 6000, 8000, 10000::nat]"
    by (simp add: upt_rec)
  from queryOpenRouter_exhausted_returns_empty [OF demo_key lim]
  show ?thesis by (simp add: fl upt)
qed

text \<open>
  C6. A success whose body has no \<^verbatim>\<open>choices\<close>: reading element 0 of \<^verbatim>\<open>undefined\<close>
  throws inside the \<^verbatim>\<open>try\<close> block, so the attempt counts as a failure. Answered so five
  times, the client throws the type error after four sleeps of 1000 milliseconds; it does
  not return the empty string. Where the first choice, its message or the content of the
  message is missing, the optional chaining gives the empty string.
\<close>

theorem queryOpenRouter_missing_choices_throws:
  "try_attempt (Responds no_choices) = Thrown (TypeErrorProperty (lit ''0'')) \<and>
   try_attempt (Responds \<lparr>status = 200, body = Inr (JObj [(lit ''choices'', JArr [])])\<rparr>) =
     Returned (JStr []) \<and>
   try_attempt (Responds \<lparr>status = 200, body = Inr (JObj [(lit ''choices'', JArr [JObj []])])\<rparr>) =
     Returned (JStr []) \<and>
   try_attempt (Responds \<lparr>status = 200,
       body = Inr (JObj [(lit ''choices'', JArr [JObj [(lit ''message'', JObj [])]])])\<rparr>) =
     Returned (JStr []) \<and>
   queryOpenRouter hello (7 / 10) 5 (demo_world (always no_choices)) =
     (Inl (TypeErrorProperty (lit ''0'')),
      (demo_world (always no_choices))
        \<lparr>fetch_log := replicate 5 (mk_request (demo_world (always no_choices)) hello (7 / 10)),
         sleep_log := [1000, 1000, 1000, 1000]\<rparr>)"
proof (intro conjI)
  show 1: "try_attempt (Responds no_choices) = Thrown (TypeErrorProperty (lit ''0''))"
    by (simp add: try_attempt_def no_choices_def ok_def extract_content_def)
  show "try_attempt (Responds \<lparr>status = 200, body = Inr (JObj [(lit ''choices'', JArr [])])\<rparr>) =
     Returned (JStr [])"
    by (simp add: try_attempt_def ok_def extract_content_def opt_member_def)
  show "try_attempt (Responds \<lparr>status = 200, body = Inr (JObj [(lit ''choices'', JArr [JObj []])])\<rparr>) =
     Returned (JStr [])"
    by (simp add: try_attempt_def ok_def extract_content_def opt_member_def)
  show "try_attempt (Responds \<lparr>status = 200,
       body = Inr (JObj [(lit ''choices'', JArr [JObj [(lit ''message'', JObj [])]])])\<rparr>) =
     Returned (JStr [])"
    by (simp add: try_attempt_def ok_def extract_content_def opt_member_def lit_def)
  let ?w = "demo_world (always no_choices)"
  let ?req = "mk_request ?w hello (7 / 10)"
  let ?e = "TypeErrorProperty (lit ''0'')"
  let ?w4 = "?w\<lparr>fetch_log := fetch_log ?w @ replicate 4 ?req, sleep_log := sleep_log ?w @ replicate 4 1000\<rparr>"
  have "\<forall>i<4. \<exists>e. try_attempt (net ?w (fetch_log ?w @ replicate (Suc i) ?req)) = Thrown e"
    using 1 by (simp add: demo_world_def always_def)
  moreover have "1 + 4 \<le> (5::nat)" by simp
  ultimately have a: "attempt_loop hello (7 / 10) 5 1 ?w = attempt_loop hello (7 / 10) 5 (1 + 4) ?w4"
    by (rule loop_thrown)
  have "try_attempt (net ?w4 (fetch_log ?w4 @ [mk_request ?w4 hello (7 / 10)])) = Thrown ?e"
    using 1 by (simp add: demo_world_def always_def)
  then have b: "attempt_loop hello (7 / 10) 5 5 ?w4 =
      (Inl ?e, ?w4\<lparr>fetch_log := fetch_log ?w4 @ [mk_request ?w4 hello (7 / 10)]\<rparr>)"
    by (rule loop_throws_last)
  have fl: "fetch_log ?w = []" "sleep_log ?w = []" by (simp_all add: demo_world_def)
  have rp: "replicate 4 (1000::nat) = [1000, 1000, 1000, 1000]" by (simp add: numeral_eq_Suc)
  have rq: "replicate 4 ?req @ [?req] = replicate 5 ?req" by (simp add: numeral_eq_Suc)
  from a b demo_key [of "always no_choices"]
  show "queryOpenRouter hello (7 / 10) 5 ?w =
     (Inl ?e, ?w\<lparr>fetch_log := replicate 5 ?req, sleep_log := [1000, 1000, 1000, 1000]\<rparr>)"
    using rq by (simp add: queryOpenRouter_def fl rp)
qed

section \<open>Properties of the pipeline\<close>

lemma attempt_loop_frame:
  "attempt_loop m t r a w = (res, w') \<Longrightarrow>
     \<exists>n sl. w' = w\<lparr>fetch_log := fetch_log w @ replicate n (mk_request w m t),
                    sleep_log := sleep_log w @ sl\<rparr> \<and> (a \<le> r \<longrightarrow> 1 \<le> n)"
proof (induction m t r a w arbitrary: res w' rule: attempt_loop.induct)
  case (1 m t r a w)
  let ?req = "mk_request w m t"
  let ?w1 = "w\<lparr>fetch_log := fetch_log w @ [?req]\<rparr>"
  let ?fo = "net w (fetch_log w @ [?req])"
  have f: "fetch ?req w = (?fo, ?w1)" by (simp add: fetch_def)
  show ?case
  proof (cases "a \<le> r")
    case False
    with "1.prems" have "w' = w" by (simp add: attempt_loop.simps)
    then have "w' = w\<lparr>fetch_log := fetch_log w @ replicate 0 ?req, sleep_log := sleep_log w @ []\<rparr>"
      by simp
    with False show ?thesis by blast
  next
    case True
    have one: "?w1 = w\<lparr>fetch_log := fetch_log w @ replicate 1 ?req, sleep_log := sleep_log w @ []\<rparr>"
      by simp
    show ?thesis
    proof (cases "try_attempt ?fo")
      case RateLimited
      let ?w2 = "sleep (2000 * a) ?w1"
      from "1.prems" True RateLimited
      have "attempt_loop m t r (a + 1) ?w2 = (res, w')"
        by (subst (asm) attempt_loop.simps) (simp add: fetch_def)
      from "1.IH"(1) [OF True f [symmetric] RateLimited this]
      obtain n sl where "w' = ?w2\<lparr>fetch_log := fetch_log ?w2 @ replicate n (mk_request ?w2 m t),
                    sleep_log := sleep_log ?w2 @ sl\<rparr>" by blast
      then have "w' = w\<lparr>fetch_log := fetch_log w @ replicate (Suc n) ?req,
                    sleep_log := sleep_log w @ (2000 * a # sl)\<rparr>"
        by (simp add: sleep_def replicate_append_same)
      then show ?thesis by (metis One_nat_def Suc_le_mono le0)
    next
      case (Returned v)
      from "1.prems" True Returned have "w' = ?w1"
        by (subst (asm) attempt_loop.simps) (simp add: fetch_def)
      with one show ?thesis by (metis order_refl)
    next
      case (Thrown e)
      show ?thesis
      proof (cases "a = r")
        case True
        from "1.prems" \<open>a \<le> r\<close> Thrown True have "w' = ?w1"
          by (subst (asm) attempt_loop.simps) (simp add: fetch_def)
        with one show ?thesis by (metis order_refl)
      next
        case False
        let ?w2 = "sleep 1000 ?w1"
        from "1.prems" True Thrown False
        have "attempt_loop m t r (a + 1) ?w2 = (res, w')"
          by (subst (asm) attempt_loop.simps) (simp add: fetch_def)
        from "1.IH"(2) [OF True f [symmetric] Thrown False this]
        obtain n sl where "w' = ?w2\<lparr>fetch_log := fetch_log ?w2 @ replicate n (mk_request ?w2 m t),
                    sleep_log := sleep_log ?w2 @ sl\<rparr>" by blast
        then have "w' = w\<lparr>fetch_log := fetch_log w @ replicate (Suc n) ?req,
                    sleep_log := sleep_log w @ (1000 # sl)\<rparr>"
          by (simp add: sleep_def replicate_append_same)
        then show ?thesis by (metis One_nat_def Suc_le_mono le0)
      qed
    qed
  qed
qed

lemma queryOpenRouter_frame:
  assumes "queryOpenRouter m t r w = (res, w')"
  shows "\<exists>n sl. w' = w\<lparr>fetch_log := fetch_log w @ replicate n (mk_request w m t),
                    sleep_log := sleep_log w @ sl\<rparr> \<and> (\<not> absent (api_key w) \<and> 1 \<le> r \<longrightarrow> 1 \<le> n)"
proof (cases "absent (api_key w)")
  case True
  with assms have "w' = w" by (simp add: queryOpenRouter_def)
  then have "w' = w\<lparr>fetch_log := fetch_log w @ replicate 0 (mk_request w m t),
                    sleep_log := sleep_log w @ []\<rparr>" by simp
  with True show ?thesis by blast
next
  case False
  with assms have "attempt_loop m t r 1 w = (res, w')" by (simp add: queryOpenRouter_def)
  from attempt_loop_frame [OF this] False show ?thesis by blast
qed

lemma architectAgent_frame:
  assumes "architectAgent p s w = (res, w')"
  shows "\<exists>n sl. w' = w\<lparr>console := console w @ [ArchitectBuilding], fetch_log := fetch_log w @
             replicate n (mk_request w [user_message (architect_prompt p s)] (7 / 10)),
           sleep_log := sleep_log w @ sl\<rparr> \<and>
         (\<not> absent (api_key w) \<longrightarrow> 1 \<le> n)"
  using queryOpenRouter_frame [OF assms [unfolded architectAgent_def]]
  by (auto simp: console_log_def)

lemma auditorAgent_frame:
  assumes "auditorAgent c s w = (res, w')"
  shows "\<exists>n sl. w' = w\<lparr>console := console w @ [AuditorValidating], fetch_log := fetch_log w @
             replicate n (mk_request w [user_message (auditor_prompt c s)] (2 / 10)),
           sleep_log := sleep_log w @ sl\<rparr> \<and>
         (\<not> absent (api_key w) \<longrightarrow> 1 \<le> n)"
  using queryOpenRouter_frame [OF assms [unfolded auditorAgent_def]]
  by (auto simp: console_log_def)

lemma reviewerAgent_frame:
  assumes "reviewerAgent c rules w = (res, w')"
  shows "\<exists>n sl. w' = w\<lparr>console := console w @ [ReviewerPolishing], fetch_log := fetch_log w @
             replicate n (mk_request w [user_message (reviewer_prompt c rules)] (2 / 10)),
           sleep_log := sleep_log w @ sl\<rparr> \<and>
         (\<not> absent (api_key w) \<longrightarrow> 1 \<le> n)"
  using queryOpenRouter_frame [OF assms [unfolded reviewerAgent_def]]
  by (auto simp: console_log_def)

lemma architectAgent_keeps:
  assumes "architectAgent p s w = (res, w')"
  shows "files w' = files w" "write_protected w' = write_protected w" "api_key w' = api_key w"
    "console w' = console w @ [ArchitectBuilding]"
  using architectAgent_frame [OF assms] by auto

lemma auditorAgent_keeps:
  assumes "auditorAgent c s w = (res, w')"
  shows "files w' = files w" "write_protected w' = write_protected w" "api_key w' = api_key w"
    "console w' = console w @ [AuditorValidating]"
  using auditorAgent_frame [OF assms] by auto

lemma reviewerAgent_keeps:
  assumes "reviewerAgent c rules w = (res, w')"
  shows "files w' = files w" "write_protected w' = write_protected w" "api_key w' = api_key w"
    "console w' = console w @ [ReviewerPolishing]"
  using reviewerAgent_frame [OF assms] by auto

lemma load_contexts_keeps:
  assumes "load_contexts sp rp w = (res, wl)"
  shows "files wl = files w" "write_protected wl = write_protected w" "api_key wl = api_key w"
    "\<exists>ls. console wl = console w @ ls \<and> set ls \<subseteq> {SpecLoaded, ReviewLoaded}"
  using assms
  by (auto simp: load_contexts_def bind_def readTextFile_def console_log_def
      split: option.splits if_splits)

lemma main_ready:
  assumes "\<not> absent (api_key w)" "arg_prompt a \<noteq> []" "\<not> absent (arg_spec a)"
  shows "main a w =
    (case main_try (arg_prompt a) (the (arg_spec a)) (arg_review a) (out_path a) w of
       (Inr u, w') \<Rightarrow> (Resolved, w')
     | (Inl err, w') \<Rightarrow> (Resolved, console_log (ErrorLine err) w'))"
  using assms by (simp add: main_def)

lemma generate_no_review:
  "\<exists>ls. console (snd (generate p sc [] out w)) = console w @ ls \<and> ReviewerPolishing \<notin> set ls"
proof -
  obtain r1 w1 where a: "architectAgent p sc w = (r1, w1)" by (cases "architectAgent p sc w")
  note k1 = architectAgent_keeps(4) [OF a]
  show ?thesis
  proof (cases "bind (r1, w1) (\<lambda>code w. (cleanCode_val code, w))")
    case (Pair r1' w1')
    then have w1': "w1' = w1" by (auto simp: bind_def split: sum.splits)
    show ?thesis
    proof (cases r1')
      case (Inl e)
      with Pair a have "generate p sc [] out w = (Inl e, w1)"
        by (auto simp: generate_def bind_def split: sum.splits)
      with k1 show ?thesis by simp
    next
      case (Inr c1)
      obtain r2 w2 where b: "auditorAgent c1 sc w1 = (r2, w2)" by (cases "auditorAgent c1 sc w1")
      note k2 = auditorAgent_keeps(4) [OF b]
      from Pair Inr a b have g: "generate p sc [] out w =
          bind (r2, w2) (\<lambda>code w. bind (cleanCode_val code, w) (\<lambda>code w.
            bind (writeTextFile out code w) (\<lambda>u w. (Inr (), console_log (PipelineDone out) w))))"
        by (auto simp: generate_def bind_def split: sum.splits)
      have "console (snd (generate p sc [] out w)) = console w2 \<or>
            console (snd (generate p sc [] out w)) = console w2 @ [PipelineDone out]"
        unfolding g by (auto simp: bind_def writeTextFile_def console_log_def split: sum.splits)
      with k1 k2 show ?thesis by auto
    qed
  qed
qed

lemma generate_failure_files:
  assumes "generate p sc rc out w = (Inl e, w')"
  shows "files w' = files w"
  using assms
  by (auto simp: generate_def bind_def writeTextFile_def
      split: sum.splits prod.splits if_splits)
    (metis architectAgent_keeps(1) auditorAgent_keeps(1) reviewerAgent_keeps(1))+

lemma main_try_loaded:
  assumes "load_contexts sp rp w = (Inr (sc, rc), wl)"
  shows "main_try p sp rp out w = generate p sc rc out wl"
  using assms by (simp add: main_try_def bind_def)

lemma main_try_failure_files:
  assumes "main_try p sp rp out w = (Inl e, w')"
  shows "files w' = files w"
proof (cases "load_contexts sp rp w")
  case (Pair r wl)
  show ?thesis
  proof (cases r)
    case (Inl e')
    with Pair assms have "w' = wl" by (simp add: main_try_def bind_def)
    with load_contexts_keeps(1) [OF Pair] show ?thesis by simp
  next
    case (Inr c)
    obtain sc rc where "c = (sc, rc)" by (cases c)
    with Pair Inr assms have "generate p sc rc out wl = (Inl e, w')"
      by (simp add: main_try_def bind_def)
    from generate_failure_files [OF this] load_contexts_keeps(1) [OF Pair] show ?thesis by simp
  qed
qed

lemma main_reports:
  assumes key: "\<not> absent (api_key w)" and args: "arg_prompt a \<noteq> []" "\<not> absent (arg_spec a)"
    and load: "load_contexts (the (arg_spec a)) (arg_review a) w = (Inr (specContent, reviewContent), wl)"
    and throws: "stage_throws (arg_prompt a) specContent reviewContent wl e wk"
  shows "main a w = (Resolved, console_log (ErrorLine e) wk)" "files wk = files w"
proof -
  from throws have "generate (arg_prompt a) specContent reviewContent (out_path a) wl = (Inl e, wk)"
    by cases (simp_all add: generate_def bind_def)
  then have t: "main_try (arg_prompt a) (the (arg_spec a)) (arg_review a) (out_path a) w = (Inl e, wk)"
    by (simp add: main_try_loaded [OF load])
  then show "main a w = (Resolved, console_log (ErrorLine e) wk)"
    using key args by (simp add: main_ready)
  from t show "files wk = files w" by (rule main_try_failure_files)
qed

lemma greet_sanitized: "cleanCode fenced_greet = lit ''function greet() {}''"
  by (simp add: fenced_greet_def lit_def cleanCode_def match_open_def fence_def bt_def nl_def
      is_word_def trim_def is_ws_def)

lemma arrow_sanitized: "cleanCode arrow_greet = arrow_greet"
  by (simp add: arrow_greet_def lit_def cleanCode_def match_open_def fence_def bt_def nl_def
      is_word_def trim_def is_ws_def)

lemma demo_args_facts:
  "arg_prompt demo_args \<noteq> []" "\<not> absent (arg_spec demo_args)"
  "the (arg_spec demo_args) = lit ''spec.md''" "arg_review demo_args = None"
  "out_path demo_args = lit ''output.ts''"
  "arg_prompt review_args = arg_prompt demo_args" "\<not> absent (arg_spec review_args)"
  "the (arg_spec review_args) = lit ''spec.md''" "arg_review review_args = Some (lit ''rules.md'')"
  "out_path review_args = lit ''output.ts''"
  by (simp_all add: demo_args_def review_args_def absent_def out_path_def lit_def)

lemma demo_load:
  "load_contexts (lit ''spec.md'') None (demo_world n) =
     (Inr (lit ''must be named greet'', []), console_log SpecLoaded (demo_world n))"
  "load_contexts (lit ''spec.md'') (Some (lit ''rules.md'')) (demo_world n) =
     (Inr (lit ''must be named greet'', lit ''use arrow functions''),
      console_log ReviewLoaded (console_log SpecLoaded (demo_world n)))"
  by (simp_all add: load_contexts_def bind_def readTextFile_def absent_def demo_world_def
      demo_files_def console_log_def lit_def)

text \<open>
  C1. With a key, a prompt and a specification path, and the contexts loaded with an empty
  review text (no review path, or an empty rules file): whatever the service answers,
  \<^verbatim>\<open>main\<close> prints no line of the Reviewer, which the Reviewer prints before anything
  else; and when the Architect returns \<open>x\<close> and the Auditor, run on the sanitized \<open>x\<close>,
  returns \<open>y\<close>, the file written is the sanitized \<open>y\<close> and nothing else happens but
  the closing line.
\<close>

theorem main_without_review:
  assumes key: "\<not> absent (api_key w)" and args: "arg_prompt a \<noteq> []" "\<not> absent (arg_spec a)"
    and load: "load_contexts (the (arg_spec a)) (arg_review a) w = (Inr (specContent, []), wl)"
  shows "(\<exists>ls. console (snd (main a w)) = console w @ ls \<and> ReviewerPolishing \<notin> set ls) \<and>
    (architectAgent (arg_prompt a) specContent wl = (Inr (JStr x), w1) \<and>
     auditorAgent (cleanCode x) specContent w1 = (Inr (JStr y), w2) \<and>
     out_path a \<notin> write_protected w \<longrightarrow>
       main a w =
         (Resolved, w2\<lparr>files := (files w2)(out_path a \<mapsto> cleanCode y),
                       console := console w2 @ [PipelineDone (out_path a)]\<rparr>))"
proof
  let ?g = "generate (arg_prompt a) specContent [] (out_path a) wl"
  have m: "main a w = (case ?g of (Inr u, w') \<Rightarrow> (Resolved, w')
     | (Inl err, w') \<Rightarrow> (Resolved, console_log (ErrorLine err) w'))"
    using key args by (simp add: main_ready main_try_loaded [OF load])
  obtain l0 where l0: "console wl = console w @ l0" "set l0 \<subseteq> {SpecLoaded, ReviewLoaded}"
    using load_contexts_keeps(4) [OF load] by blast
  obtain l1 where l1: "console (snd ?g) = console wl @ l1" "ReviewerPolishing \<notin> set l1"
    using generate_no_review by blast
  have "console (snd (main a w)) = console (snd ?g) \<or>
        (\<exists>err. console (snd (main a w)) = console (snd ?g) @ [ErrorLine err])"
    unfolding m by (auto simp: console_log_def split: prod.splits sum.splits)
  then show "\<exists>ls. console (snd (main a w)) = console w @ ls \<and> ReviewerPolishing \<notin> set ls"
  proof
    assume "console (snd (main a w)) = console (snd ?g)"
    with l0 l1 have "console (snd (main a w)) = console w @ (l0 @ l1) \<and> ReviewerPolishing \<notin> set (l0 @ l1)"
      by auto
    then show ?thesis by blast
  next
    assume "\<exists>err. console (snd (main a w)) = console (snd ?g) @ [ErrorLine err]"
    then obtain err where "console (snd (main a w)) = console (snd ?g) @ [ErrorLine err]" by blast
    with l0 l1 have "console (snd (main a w)) = console w @ (l0 @ l1 @ [ErrorLine err]) \<and>
        ReviewerPolishing \<notin> set (l0 @ l1 @ [ErrorLine err])"
      by auto
    then show ?thesis by blast
  qed
next
  show "architectAgent (arg_prompt a) specContent wl = (Inr (JStr x), w1) \<and>
     auditorAgent (cleanCode x) specContent w1 = (Inr (JStr y), w2) \<and>
     out_path a \<notin> write_protected w \<longrightarrow>
       main a w =
         (Resolved, w2\<lparr>files := (files w2)(out_path a \<mapsto> cleanCode y),
                       console := console w2 @ [PipelineDone (out_path a)]\<rparr>)"
  proof
    assume h: "architectAgent (arg_prompt a) specContent wl = (Inr (JStr x), w1) \<and>
     auditorAgent (cleanCode x) specContent w1 = (Inr (JStr y), w2) \<and>
     out_path a \<notin> write_protected w"
    then have "write_protected w2 = write_protected w"
      using architectAgent_keeps(2) auditorAgent_keeps(2) load_contexts_keeps(2) [OF load]
      by metis
    with h have "generate (arg_prompt a) specContent [] (out_path a) wl =
        (Inr (), w2\<lparr>files := (files w2)(out_path a \<mapsto> cleanCode y),
                       console := console w2 @ [PipelineDone (out_path a)]\<rparr>)"
      by (simp add: generate_def bind_def writeTextFile_def console_log_def)
    then show "main a w =
         (Resolved, w2\<lparr>files := (files w2)(out_path a \<mapsto> cleanCode y),
                       console := console w2 @ [PipelineDone (out_path a)]\<rparr>)"
      using key args by (simp add: main_ready main_try_loaded [OF load])
  qed
qed

theorem main_without_review_witness:
  "fst (main demo_args (demo_world (always (reply fenced_greet)))) = Resolved \<and>
   files (snd (main demo_args (demo_world (always (reply fenced_greet))))) (lit ''output.ts'') =
     Some (lit ''function greet() {}'') \<and>
   console (snd (main demo_args (demo_world (always (reply fenced_greet))))) =
     [SpecLoaded, ArchitectBuilding, AuditorValidating, PipelineDone (lit ''output.ts'')]"
proof -
  let ?W = "demo_world (always (reply fenced_greet))"
  let ?sc = "lit ''must be named greet''"
  let ?wl = "console_log SpecLoaded ?W"
  let ?a1 = "console_log ArchitectBuilding ?wl"
  let ?w1 = "?a1\<lparr>fetch_log := fetch_log ?a1 @
      [mk_request ?a1 [user_message (architect_prompt (arg_prompt demo_args) ?sc)] (7 / 10)]\<rparr>"
  let ?a2 = "console_log AuditorValidating ?w1"
  let ?w2 = "?a2\<lparr>fetch_log := fetch_log ?a2 @
      [mk_request ?a2 [user_message (auditor_prompt (cleanCode fenced_greet) ?sc)] (2 / 10)]\<rparr>"
  have load: "load_contexts (the (arg_spec demo_args)) (arg_review demo_args) ?W = (Inr (?sc, []), ?wl)"
    by (simp add: demo_args_facts demo_load)
  have k: "\<not> absent (api_key ?a1)" "\<not> absent (api_key ?a2)"
    by (simp_all add: demo_world_def absent_def lit_def console_log_def)
  have architect: "architectAgent (arg_prompt demo_args) ?sc ?wl = (Inr (JStr fenced_greet), ?w1)"
    unfolding architectAgent_def by (rule query_replies [OF k(1)]) (simp add: always_def console_log_def demo_world_def)
  have auditor: "auditorAgent (cleanCode fenced_greet) ?sc ?w1 = (Inr (JStr fenced_greet), ?w2)"
    unfolding auditorAgent_def by (rule query_replies [OF k(2)]) (simp add: always_def console_log_def demo_world_def)
  have out: "out_path demo_args \<notin> write_protected ?W" by (simp add: demo_world_def)
  have "main demo_args ?W =
      (Resolved, ?w2\<lparr>files := (files ?w2)(out_path demo_args \<mapsto> cleanCode fenced_greet),
         console := console ?w2 @ [PipelineDone (out_path demo_args)]\<rparr>)"
    by (rule main_without_review [OF demo_key demo_args_facts(1,2) load, THEN conjunct2, rule_format,
          OF conjI [OF architect conjI [OF auditor out]]])
  then show ?thesis
    by (simp add: greet_sanitized demo_args_facts console_log_def demo_world_def)
qed

text \<open>
  C2. With a review text that is not empty: when the Architect returns \<open>x\<close>, the Auditor,
  run on the sanitized \<open>x\<close>, returns \<open>y\<close>, and the Reviewer, run on the sanitized \<open>y\<close>,
  returns \<open>z\<close>, the file written is the sanitized \<open>z\<close>. The three agents print their
  lines in this order, and every request the Reviewer sends carries the prompt built from
  the sanitized \<open>y\<close>.
\<close>

theorem main_with_review:
  assumes key: "\<not> absent (api_key w)" and args: "arg_prompt a \<noteq> []" "\<not> absent (arg_spec a)"
    and load: "load_contexts (the (arg_spec a)) (arg_review a) w = (Inr (specContent, reviewContent), wl)"
    and rules: "reviewContent \<noteq> []"
    and architect: "architectAgent (arg_prompt a) specContent wl = (Inr (JStr x), w1)"
    and auditor: "auditorAgent (cleanCode x) specContent w1 = (Inr (JStr y), w2)"
    and reviewer: "reviewerAgent (cleanCode y) reviewContent w2 = (Inr (JStr z), w3)"
    and out: "out_path a \<notin> write_protected w"
  shows "main a w =
      (Resolved, w3\<lparr>files := (files w3)(out_path a \<mapsto> cleanCode z),
                    console := console w3 @ [PipelineDone (out_path a)]\<rparr>) \<and>
    console w3 = console wl @ [ArchitectBuilding, AuditorValidating, ReviewerPolishing] \<and>
    (\<exists>n\<ge>1. fetch_log w3 = fetch_log w2 @
       replicate n (mk_request w2 [user_message (reviewer_prompt (cleanCode y) reviewContent)] (2 / 10)))"
proof (intro conjI)
  have "write_protected w3 = write_protected w"
    using architectAgent_keeps(2) [OF architect] auditorAgent_keeps(2) [OF auditor]
      reviewerAgent_keeps(2) [OF reviewer] load_contexts_keeps(2) [OF load]
    by simp
  with out rules architect auditor reviewer
  have "generate (arg_prompt a) specContent reviewContent (out_path a) wl =
        (Inr (), w3\<lparr>files := (files w3)(out_path a \<mapsto> cleanCode z),
                       console := console w3 @ [PipelineDone (out_path a)]\<rparr>)"
    by (simp add: generate_def bind_def writeTextFile_def console_log_def)
  then show "main a w =
      (Resolved, w3\<lparr>files := (files w3)(out_path a \<mapsto> cleanCode z),
                    console := console w3 @ [PipelineDone (out_path a)]\<rparr>)"
    using key args by (simp add: main_ready main_try_loaded [OF load])
next
  show "console w3 = console wl @ [ArchitectBuilding, AuditorValidating, ReviewerPolishing]"
    using architectAgent_keeps(4) [OF architect] auditorAgent_keeps(4) [OF auditor]
      reviewerAgent_keeps(4) [OF reviewer]
    by simp
next
  have "api_key w2 = api_key w"
    using architectAgent_keeps(3) [OF architect] auditorAgent_keeps(3) [OF auditor]
      load_contexts_keeps(3) [OF load]
    by simp
  with key have "\<not> absent (api_key w2)" by simp
  with reviewerAgent_frame [OF reviewer]
  show "\<exists>n\<ge>1. fetch_log w3 = fetch_log w2 @
       replicate n (mk_request w2 [user_message (reviewer_prompt (cleanCode y) reviewContent)] (2 / 10))"
    by auto
qed

theorem main_with_review_witness:
  "fst (main review_args (demo_world staged)) = Resolved \<and>
   files (snd (main review_args (demo_world staged))) (lit ''output.ts'') = Some arrow_greet \<and>
   console (snd (main review_args (demo_world staged))) =
     [SpecLoaded, ReviewLoaded, ArchitectBuilding, AuditorValidating, ReviewerPolishing,
      PipelineDone (lit ''output.ts'')]"
proof -
  let ?W = "demo_world staged"
  let ?sc = "lit ''must be named greet''"
  let ?rc = "lit ''use arrow functions''"
  let ?wl = "console_log ReviewLoaded (console_log SpecLoaded ?W)"
  let ?a1 = "console_log ArchitectBuilding ?wl"
  let ?w1 = "?a1\<lparr>fetch_log := fetch_log ?a1 @
      [mk_request ?a1 [user_message (architect_prompt (arg_prompt review_args) ?sc)] (7 / 10)]\<rparr>"
  let ?a2 = "console_log AuditorValidating ?w1"
  let ?w2 = "?a2\<lparr>fetch_log := fetch_log ?a2 @
      [mk_request ?a2 [user_message (auditor_prompt (cleanCode fenced_greet) ?sc)] (2 / 10)]\<rparr>"
  let ?a3 = "console_log ReviewerPolishing ?w2"
  let ?w3 = "?a3\<lparr>fetch_log := fetch_log ?a3 @
      [mk_request ?a3 [user_message (reviewer_prompt (cleanCode fenced_greet) ?rc)] (2 / 10)]\<rparr>"
  have load: "load_contexts (the (arg_spec review_args)) (arg_review review_args) ?W =
      (Inr (?sc, ?rc), ?wl)"
    by (simp add: demo_args_facts demo_load)
  have rules: "?rc \<noteq> []" by (simp add: lit_def)
  have k: "\<not> absent (api_key ?a1)" "\<not> absent (api_key ?a2)" "\<not> absent (api_key ?a3)"
    by (simp_all add: demo_world_def absent_def lit_def console_log_def)
  have architect: "architectAgent (arg_prompt review_args) ?sc ?wl = (Inr (JStr fenced_greet), ?w1)"
    unfolding architectAgent_def by (rule query_replies [OF k(1)]) (simp add: staged_def console_log_def demo_world_def)
  have auditor: "auditorAgent (cleanCode fenced_greet) ?sc ?w1 = (Inr (JStr fenced_greet), ?w2)"
    unfolding auditorAgent_def by (rule query_replies [OF k(2)]) (simp add: staged_def console_log_def demo_world_def)
  have reviewer: "reviewerAgent (cleanCode fenced_greet) ?rc ?w2 = (Inr (JStr arrow_greet), ?w3)"
    unfolding reviewerAgent_def by (rule query_replies [OF k(3)]) (simp add: staged_def console_log_def demo_world_def)
  have out: "out_path review_args \<notin> write_protected ?W" by (simp add: demo_world_def)
  have "main review_args ?W =
      (Resolved, ?w3\<lparr>files := (files ?w3)(out_path review_args \<mapsto> cleanCode arrow_greet),
         console := console ?w3 @ [PipelineDone (out_path review_args)]\<rparr>)"
    by (rule main_with_review [OF demo_key demo_args_facts(1) [folded demo_args_facts(6)] demo_args_facts(7)
          load rules architect auditor reviewer out, THEN conjunct1])
  then show ?thesis
    by (simp add: arrow_sanitized demo_args_facts console_log_def demo_world_def)
qed

text \<open>
  When a stage throws, \<^verbatim>\<open>main\<close> ends in the world the stage left, with the line of the
  error added to the console: no later stage runs and no file is written.
\<close>

lemma main_stage_abort:
  assumes key: "\<not> absent (api_key w)" and args: "arg_prompt a \<noteq> []" "\<not> absent (arg_spec a)"
    and load: "load_contexts (the (arg_spec a)) (arg_review a) w = (Inr (specContent, reviewContent), wl)"
    and throws: "stage_throws (arg_prompt a) specContent reviewContent wl e wk"
  shows "main a w = (Resolved, console_log (ErrorLine e) wk) \<and> files (snd (main a w)) = files w"
  using main_reports [OF assms] by (simp add: console_log_def)

text \<open>
  C9. A service that answers 500 to every request: the Architect throws after five
  attempts. \<^verbatim>\<open>main\<close> prints the error, runs no later stage and writes no file, as the
  claim has it. But its \<^verbatim>\<open>catch\<close> block only prints: \<^verbatim>\<open>main\<close> returns and the exit code is
  0, where the claim has a completion that is not zero, and where \<^verbatim>\<open>main\<close> itself exits
  with code 1 when the key is missing.
\<close>

theorem main_failure_exit_code:
  "fst (architectAgent (arg_prompt demo_args) (lit ''must be named greet'')
         (console_log SpecLoaded (demo_world (always server_error)))) = Inl (ApiError 500) \<and>
   console (snd (main demo_args (demo_world (always server_error)))) =
     [SpecLoaded, ArchitectBuilding, ErrorLine (ApiError 500)] \<and>
   files (snd (main demo_args (demo_world (always server_error)))) = demo_files \<and>
   exit_code (fst (main demo_args (demo_world (always server_error)))) = 0 \<and>
   exit_code (fst (main demo_args ((demo_world (always server_error))\<lparr>api_key := None\<rparr>))) = 1"
proof -
  let ?W = "demo_world (always server_error)"
  let ?sc = "lit ''must be named greet''"
  let ?wl = "console_log SpecLoaded ?W"
  let ?a1 = "console_log ArchitectBuilding ?wl"
  let ?req = "mk_request ?a1 [user_message (architect_prompt (arg_prompt demo_args) ?sc)] (7 / 10)"
  let ?wk = "?a1\<lparr>fetch_log := fetch_log ?a1 @ replicate 5 ?req,
      sleep_log := sleep_log ?a1 @ replicate (5 - 1) 1000\<rparr>"
  have load: "load_contexts (the (arg_spec demo_args)) (arg_review demo_args) ?W = (Inr (?sc, []), ?wl)"
    by (simp add: demo_args_facts demo_load)
  have k: "\<not> absent (api_key ?a1)"
    by (simp add: demo_world_def absent_def lit_def console_log_def)
  have "\<forall>i<5. try_attempt (net ?a1 (fetch_log ?a1 @ replicate (Suc i) ?req)) =
      Thrown ((\<lambda>i. ApiError 500) i)"
    by (simp add: always_def console_log_def demo_world_def try_attempt_server_error)
  from query_throws [OF k _ this]
  have architect: "architectAgent (arg_prompt demo_args) ?sc ?wl = (Inl (ApiError 500), ?wk)"
    by (simp add: architectAgent_def)
  then have "stage_throws (arg_prompt demo_args) ?sc [] ?wl (ApiError 500) ?wk"
    by (rule stage_throws.architect)
  from main_reports(1) [OF demo_key demo_args_facts(1,2) load this]
  have "main demo_args ?W = (Resolved, console_log (ErrorLine (ApiError 500)) ?wk)" .
  moreover have "exit_code (fst (main demo_args ((demo_world (always server_error))\<lparr>api_key := None\<rparr>))) = 1"
    by (simp add: main_def absent_def demo_world_def)
  ultimately show ?thesis using architect by (simp add: console_log_def demo_world_def)
qed

end
